theory Spec2Isabelle
  imports Main "HOL-Library.Word" "HOL-Library.Signed_Division"
begin

unbundle bit_operations_syntax

section \<open>Go strings, bytes and runes\<close>

text \<open>
  A Go \<open>string\<close> is a sequence of bytes: it is modelled by \<open>string\<close> (a list of 8-bit
  \<open>char\<close>s), a \<open>byte\<close>/\<open>uint8\<close> by an 8-bit word and a \<open>rune\<close> (\<open>int32\<close>) by a 32-bit word.
  Go's \<open>int\<close> has 64 bits and its \<open>+\<close>, \<open>-\<close> and \<open>*\<close> wrap around. It is modelled by HOL's
  \<open>int\<close> (lengths and loop counters that never go negative by \<open>nat\<close>), with the wrap-around
  \<open>wrap64\<close> written out where the encoder derives the size of the image from the
  configuration. Everywhere else the values stay between 0 and a side of the image or the
  length of the sequence as long as those sizes did not wrap; the one exception, the counter
  of the outer loop of the decoder under a step that is not positive, is described there.
\<close>

type_synonym byte = "8 word"
type_synonym rune = "32 word"

definition wrap64 :: "int \<Rightarrow> int" where
  "wrap64 x = (x + 2 ^ 63) mod 2 ^ 64 - 2 ^ 63"

definition byte_of :: "char \<Rightarrow> byte" where
  "byte_of c = of_char c"

definition char_from :: "byte \<Rightarrow> char" where
  "char_from b = char_of (unat b)"

text \<open>A rune literal such as \<open>'A'\<close>, and the conversion \<open>rune(s[i])\<close> of a byte.\<close>

definition rune_lit :: "char \<Rightarrow> rune" where
  "rune_lit c = of_char c"

definition rune_of_byte :: "byte \<Rightarrow> rune" where
  "rune_of_byte b = ucast b"

definition runeError :: rune where
  "runeError = 0xFFFD"

definition contb :: "byte \<Rightarrow> bool" where
  "contb b \<longleftrightarrow> 0x80 \<le> b \<and> b \<le> 0xBF"

text \<open>
  The runtime's \<open>decoderune\<close>, which a \<open>range\<close> clause over a string calls at a byte
  \<open>\<ge> 0x80\<close>: the rune that starts there and its width in bytes; an ill-formed sequence is
  \<open>U+FFFD\<close> of width 1.
\<close>

definition decoderune :: "byte list \<Rightarrow> rune \<times> nat" where
  "decoderune s =
     (case s of
        [] \<Rightarrow> (runeError, 1)
      | s0 # t \<Rightarrow>
         if 0xC0 \<le> s0 \<and> s0 < 0xE0 then
           (case t of
              s1 # _ \<Rightarrow>
                if contb s1 then
                  (let r = push_bit 6 (ucast (s0 AND 0x1F)) OR ucast (s1 AND 0x3F) :: rune
                   in if 0x7F < r then (r, 2) else (runeError, 1))
                else (runeError, 1)
            | _ \<Rightarrow> (runeError, 1))
         else if 0xE0 \<le> s0 \<and> s0 < 0xF0 then
           (case t of
              s1 # s2 # _ \<Rightarrow>
                if contb s1 \<and> contb s2 then
                  (let r = push_bit 12 (ucast (s0 AND 0x0F)) OR push_bit 6 (ucast (s1 AND 0x3F))
                             OR ucast (s2 AND 0x3F) :: rune
                   in if 0x7FF < r \<and> \<not> (0xD800 \<le> r \<and> r \<le> 0xDFFF) then (r, 3)
                      else (runeError, 1))
                else (runeError, 1)
            | _ \<Rightarrow> (runeError, 1))
         else if 0xF0 \<le> s0 \<and> s0 < 0xF8 then
           (case t of
              s1 # s2 # s3 # _ \<Rightarrow>
                if contb s1 \<and> contb s2 \<and> contb s3 then
                  (let r = push_bit 18 (ucast (s0 AND 0x07)) OR push_bit 12 (ucast (s1 AND 0x3F))
                             OR push_bit 6 (ucast (s2 AND 0x3F)) OR ucast (s3 AND 0x3F) :: rune
                   in if 0xFFFF < r \<and> r \<le> 0x10FFFF then (r, 4) else (runeError, 1))
                else (runeError, 1)
            | _ \<Rightarrow> (runeError, 1))
         else (runeError, 1))"

text \<open>
  \<open>for i, r := range s\<close>: the pairs of byte index and rune, in order. \<open>range_from i k s\<close>
  is at byte index \<open>i\<close> with \<open>k\<close> bytes of the current rune still to skip.
\<close>

fun range_from :: "nat \<Rightarrow> nat \<Rightarrow> string \<Rightarrow> (nat \<times> rune) list" where
  "range_from i k [] = []"
| "range_from i (Suc k) (c # cs) = range_from (Suc i) k cs"
| "range_from i 0 (c # cs) =
     (if byte_of c < 0x80 then (i, rune_of_byte (byte_of c)) # range_from (Suc i) 0 cs
      else (let (r, w) = decoderune (map byte_of (c # cs))
            in (i, r) # range_from (Suc i) (w - 1) cs))"

definition range_string :: "string \<Rightarrow> (nat \<times> rune) list" where
  "range_string s = range_from 0 0 s"

text \<open>\<open>utf8.AppendRune\<close>, behind \<open>string(r)\<close> and \<open>strings.Builder.WriteRune\<close>.\<close>

definition encodeRune :: "rune \<Rightarrow> string" where
  "encodeRune r =
     map char_from
       (if r \<le> 0x7F then [ucast r]
        else if r \<le> 0x7FF then
          [0xC0 OR ucast (drop_bit 6 r), 0x80 OR (ucast r AND 0x3F)]
        else if r > 0x10FFFF \<or> (0xD800 \<le> r \<and> r \<le> 0xDFFF) then [0xEF, 0xBF, 0xBD]
        else if r \<le> 0xFFFF then
          [0xE0 OR ucast (drop_bit 12 r), 0x80 OR (ucast (drop_bit 6 r) AND 0x3F),
           0x80 OR (ucast r AND 0x3F)]
        else
          [0xF0 OR ucast (drop_bit 18 r), 0x80 OR (ucast (drop_bit 12 r) AND 0x3F),
           0x80 OR (ucast (drop_bit 6 r) AND 0x3F), 0x80 OR (ucast r AND 0x3F)])"

section \<open>dnacrypt.go: bytes as DNA and the one-time pad\<close>

datatype crypt_error =
    BadLength nat
  | InvalidBase rune
  | NotMultipleOf4
  | InvalidBinary byte
  | LengthMismatch
  | InString1 nat crypt_error
  | InString2 nat crypt_error
  | XorResult crypt_error

text \<open>\<open>byteToDNA\<close>: the four 2-bit groups of the byte, most significant first.\<close>

definition twoBitsToDNA :: "byte \<Rightarrow> string" where
  "twoBitsToDNA twoBits =
     (if twoBits = 0 then ''A'' else if twoBits = 1 then ''T''
      else if twoBits = 2 then ''C'' else if twoBits = 3 then ''G'' else '''')"

fun byteToDNA_loop :: "byte \<Rightarrow> nat list \<Rightarrow> string \<Rightarrow> string" where
  "byteToDNA_loop b [] dnaSequence = dnaSequence"
| "byteToDNA_loop b (i # is) dnaSequence =
     byteToDNA_loop b is (dnaSequence @ twoBitsToDNA (drop_bit (i * 2) b AND 0x03))"

definition byteToDNA :: "byte \<Rightarrow> string" where
  "byteToDNA b = byteToDNA_loop b [3, 2, 1, 0] []"

fun dnaToByte_loop :: "(nat \<times> rune) list \<Rightarrow> byte \<Rightarrow> crypt_error + byte" where
  "dnaToByte_loop [] b = Inr b"
| "dnaToByte_loop ((i, r) # rs) b =
     (if r = rune_lit CHR ''A'' \<or> r = rune_lit CHR ''a'' then dnaToByte_loop rs (push_bit 2 b OR 0)
      else if r = rune_lit CHR ''T'' \<or> r = rune_lit CHR ''t'' then dnaToByte_loop rs (push_bit 2 b OR 1)
      else if r = rune_lit CHR ''C'' \<or> r = rune_lit CHR ''c'' then dnaToByte_loop rs (push_bit 2 b OR 2)
      else if r = rune_lit CHR ''G'' \<or> r = rune_lit CHR ''g'' then dnaToByte_loop rs (push_bit 2 b OR 3)
      else Inl (InvalidBase r))"

definition dnaToByte :: "string \<Rightarrow> crypt_error + byte" where
  "dnaToByte dna =
     (if length dna \<noteq> 4 then Inl (BadLength (length dna))
      else dnaToByte_loop (range_string dna) 0)"

fun textToDNA_loop :: "string \<Rightarrow> string \<Rightarrow> string" where
  "textToDNA_loop [] dnaBuilder = dnaBuilder"
| "textToDNA_loop (c # cs) dnaBuilder = textToDNA_loop cs (dnaBuilder @ byteToDNA (byte_of c))"

definition textToDNA :: "string \<Rightarrow> string" where
  "textToDNA text = textToDNA_loop text []"

function dnaToText_loop :: "string \<Rightarrow> nat \<Rightarrow> string \<Rightarrow> crypt_error + string" where
  "dnaToText_loop dna i textBuilder =
     (if i < length dna then
        (case dnaToByte (take 4 (drop i dna)) of
           Inl err \<Rightarrow> Inl err
         | Inr b \<Rightarrow> dnaToText_loop dna (i + 4) (textBuilder @ [char_from b]))
      else Inr textBuilder)"
  by pat_completeness auto
termination
  by (relation "measure (\<lambda>(dna, i, textBuilder). length dna - i)") auto

declare dnaToText_loop.simps [simp del]

text \<open>
  The slice \<open>dna[i : i+4]\<close> is in range at every step, since the length is a multiple of 4
  and \<open>i\<close> advances by 4 from 0; there it is \<open>take 4 (drop i dna)\<close>.
\<close>

definition dnaToText :: "string \<Rightarrow> crypt_error + string" where
  "dnaToText dna =
     (if length dna mod 4 \<noteq> 0 then Inl NotMultipleOf4
      else dnaToText_loop dna 0 [])"

definition dnaBaseToBinary :: "rune \<Rightarrow> crypt_error + byte" where
  "dnaBaseToBinary base =
     (if base = rune_lit CHR ''A'' \<or> base = rune_lit CHR ''a'' then Inr 0
      else if base = rune_lit CHR ''T'' \<or> base = rune_lit CHR ''t'' then Inr 1
      else if base = rune_lit CHR ''C'' \<or> base = rune_lit CHR ''c'' then Inr 2
      else if base = rune_lit CHR ''G'' \<or> base = rune_lit CHR ''g'' then Inr 3
      else Inl (InvalidBase base))"

definition binaryToDNABase :: "byte \<Rightarrow> crypt_error + rune" where
  "binaryToDNABase val =
     (let v = val AND 0x03
      in if v = 0 then Inr (rune_lit CHR ''A'')
         else if v = 1 then Inr (rune_lit CHR ''T'')
         else if v = 2 then Inr (rune_lit CHR ''C'')
         else if v = 3 then Inr (rune_lit CHR ''G'')
         else Inl (InvalidBinary val))"

function xorDNAStrings_loop :: "string \<Rightarrow> string \<Rightarrow> nat \<Rightarrow> string \<Rightarrow> crypt_error + string" where
  "xorDNAStrings_loop dna1 dna2 i resultBuilder =
     (if i < length dna1 then
        (case dnaBaseToBinary (rune_of_byte (byte_of (dna1 ! i))) of
           Inl err \<Rightarrow> Inl (InString1 i err)
         | Inr b1 \<Rightarrow>
            (case dnaBaseToBinary (rune_of_byte (byte_of (dna2 ! i))) of
               Inl err \<Rightarrow> Inl (InString2 i err)
             | Inr b2 \<Rightarrow>
                (case binaryToDNABase (b1 XOR b2) of
                   Inl err \<Rightarrow> Inl (XorResult err)
                 | Inr resBase \<Rightarrow>
                     xorDNAStrings_loop dna1 dna2 (i + 1) (resultBuilder @ encodeRune resBase))))
      else Inr resultBuilder)"
  by pat_completeness auto
termination
  by (relation "measure (\<lambda>(dna1, dna2, i, resultBuilder). length dna1 - i)") auto

declare xorDNAStrings_loop.simps [simp del]

text \<open>
  The loop reads \<open>dna2[i]\<close> for \<open>i < len(dna1)\<close> only after the two lengths were found
  equal, so both reads are in range.
\<close>

definition xorDNAStrings :: "string \<Rightarrow> string \<Rightarrow> crypt_error + string" where
  "xorDNAStrings dna1 dna2 =
     (if length dna1 \<noteq> length dna2 then Inl LengthMismatch
      else xorDNAStrings_loop dna1 dna2 0 [])"

text \<open>
  The path of \<open>encrypt\<close> followed by \<open>decrypt\<close> in \<open>main\<close>: the plaintext as DNA, XORed
  with the key, XORed with the key again and read back as text; the first error ends it.
\<close>

definition encrypt_then_decrypt :: "string \<Rightarrow> string \<Rightarrow> crypt_error + string" where
  "encrypt_then_decrypt p k =
     (case xorDNAStrings (textToDNA p) k of
        Inl err \<Rightarrow> Inl err
      | Inr ciphertextDNA \<Rightarrow>
         (case xorDNAStrings ciphertextDNA k of
            Inl err \<Rightarrow> Inl err
          | Inr plaintextDNA \<Rightarrow> dnaToText plaintextDNA))"


section \<open>dnapng.go: the image codec\<close>

subsection \<open>Configuration and errors\<close>

record Config =
  BlockSize :: int
  BlocksPerRow :: int
  RowsPerBlock :: int
  DecodeMode :: bool
  InputFile :: string
  OutputFile :: string
  UseStdio :: bool
  PaddingChar :: string
  TransparentPad :: bool

text \<open>The defaults that \<open>parseFlags\<close> declares.\<close>

definition default_cfg :: Config where
  "default_cfg = \<lparr> BlockSize = 10, BlocksPerRow = 40, RowsPerBlock = 1, DecodeMode = False,
     InputFile = [], OutputFile = [], UseStdio = False, PaddingChar = ''N'',
     TransparentPad = True \<rparr>"

text \<open>
  The errors of the codec are \<open>fmt.Errorf\<close> values; the constructors are the kinds the
  specification names. \<open>InvalidConfiguration\<close> carries the message, \<open>UnclassifiablePixel\<close> the
  intensity and \<open>minDiff\<close>, \<open>DecodingPixel\<close> wraps the error of a block with its pixel
  position. \<open>PngEncodeFailed\<close> and \<open>PngDecodeFailed\<close> are errors of \<open>png.Encode\<close> and
  \<open>png.Decode\<close>. The last three are run-time panics: \<open>IndexOutOfRange\<close> that of
  \<open>cfg.PaddingChar[0]\<close> on an empty string, \<open>DivideByZero\<close> that of an integer division by
  zero, and \<open>HugeDimensions\<close> that of \<open>image.NewRGBA\<close> on a rectangle whose pixel buffer of
  \<open>4 * w * h\<close> bytes has no length in \<open>int\<close>.
\<close>

datatype png_error =
    InvalidConfiguration string
  | DimensionMismatch int int int
  | UnclassifiablePixel byte int
  | DecodingPixel int int png_error
  | PngEncodeFailed
  | PngDecodeFailed
  | IndexOutOfRange
  | DivideByZero
  | HugeDimensions

subsection \<open>Colours and images\<close>

text \<open>
  \<open>color.RGBA\<close> and \<open>image.RGBA\<close> with bounds \<open>image.Rect(0, 0, w, h)\<close> for non-negative
  \<open>w\<close> and \<open>h\<close>. \<open>NewRGBA\<close> gives every pixel the zero colour; \<open>Set\<close> outside the bounds does
  nothing. (For a negative \<open>w\<close> or \<open>h\<close>, which the encoder can reach only through a
  wrap-around, \<open>image.Rect\<close> swaps the corners; the model does not follow that case.)
\<close>

record color_RGBA =
  cR :: byte
  cG :: byte
  cB :: byte
  cA :: byte

record image_RGBA =
  Pix :: "int \<times> int \<Rightarrow> color_RGBA"
  Rect_Max :: "int \<times> int"

definition in_Rect :: "image_RGBA \<Rightarrow> int \<Rightarrow> int \<Rightarrow> bool" where
  "in_Rect img x y \<longleftrightarrow> 0 \<le> x \<and> x < fst (Rect_Max img) \<and> 0 \<le> y \<and> y < snd (Rect_Max img)"

definition NewRGBA :: "int \<Rightarrow> int \<Rightarrow> image_RGBA" where
  "NewRGBA w h = \<lparr> Pix = (\<lambda>p. \<lparr> cR = 0, cG = 0, cB = 0, cA = 0 \<rparr>), Rect_Max = (w, h) \<rparr>"

definition Set_RGBA :: "image_RGBA \<Rightarrow> int \<Rightarrow> int \<Rightarrow> color_RGBA \<Rightarrow> image_RGBA" where
  "Set_RGBA img x y c = (if in_Rect img x y then img \<lparr> Pix := (Pix img) ((x, y) := c) \<rparr> else img)"

text \<open>\<open>color.Transparent\<close>, as \<open>color.RGBAModel\<close> converts it in \<open>Set\<close>.\<close>

definition Transparent :: color_RGBA where
  "Transparent = \<lparr> cR = 0, cG = 0, cB = 0, cA = 0 \<rparr>"

text \<open>
  What the decoder sees of an image: its \<open>Bounds().Max\<close> and, at each point, the four
  16-bit channels that \<open>At(x, y).RGBA()\<close> returns as \<open>uint32\<close>.
\<close>

type_synonym rgba16 = "32 word \<times> 32 word \<times> 32 word \<times> 32 word"

record Image =
  Bounds_Max :: "int \<times> int"
  At_RGBA :: "int \<Rightarrow> int \<Rightarrow> rgba16"

text \<open>\<open>color.RGBA.RGBA()\<close>: each channel \<open>c\<close> becomes \<open>c | c << 8\<close>.\<close>

definition RGBA_of :: "color_RGBA \<Rightarrow> rgba16" where
  "RGBA_of c =
     (ucast (cR c) OR push_bit 8 (ucast (cR c)), ucast (cG c) OR push_bit 8 (ucast (cG c)),
      ucast (cB c) OR push_bit 8 (ucast (cB c)), ucast (cA c) OR push_bit 8 (ucast (cA c)))"

text \<open>
  \<open>png.Encode\<close> and \<open>png.Decode\<close> are Go's standard library, which the specification takes
  as a lossless black box: the image decoded from the encoding of \<open>img\<close> has the bounds of
  \<open>img\<close> and shows its colours, and the zero colour outside the bounds.
\<close>

definition png_image :: "image_RGBA \<Rightarrow> Image" where
  "png_image img =
     \<lparr> Bounds_Max = Rect_Max img,
       At_RGBA = (\<lambda>x y. if in_Rect img x y then RGBA_of (Pix img (x, y)) else (0, 0, 0, 0)) \<rparr>"

subsection \<open>Classification\<close>

text \<open>
  \<open>dnaGrayscaleMap\<close> with its entries in the declared order. Reading a key that the map
  lacks yields the zero value. A \<open>range\<close> over the map visits the entries in an order that
  Go leaves open, so \<open>findClosestDNABaseGrayscale\<close> takes the order of the visit as an
  argument.
\<close>

definition dnaGrayscaleMap :: "(rune \<times> byte) list" where
  "dnaGrayscaleMap =
     [(rune_lit CHR ''A'', 0), (rune_lit CHR ''T'', 64), (rune_lit CHR ''C'', 128),
      (rune_lit CHR ''G'', 192)]"

definition dnaGrayscaleMap_at :: "rune \<Rightarrow> byte" where
  "dnaGrayscaleMap_at base = (case map_of dnaGrayscaleMap base of Some v \<Rightarrow> v | None \<Rightarrow> 0)"

fun closest_loop :: "(rune \<times> byte) list \<Rightarrow> byte \<Rightarrow> int \<Rightarrow> rune \<Rightarrow> int \<times> rune" where
  "closest_loop [] intensity minDiff closestBase = (minDiff, closestBase)"
| "closest_loop ((base, mappedIntensity) # rest) intensity minDiff closestBase =
     (let diff = (if intensity > mappedIntensity then uint (intensity - mappedIntensity)
                  else uint (mappedIntensity - intensity))
      in if diff < minDiff then closest_loop rest intensity diff base
         else closest_loop rest intensity minDiff closestBase)"

definition findClosestDNABaseGrayscale ::
    "(rune \<times> byte) list \<Rightarrow> byte \<Rightarrow> byte \<Rightarrow> png_error + rune" where
  "findClosestDNABaseGrayscale visit intensity tolerance =
     (let (minDiff, closestBase) = closest_loop visit intensity 256 0
      in if (word_of_int minDiff :: byte) > tolerance
         then Inl (UnclassifiablePixel intensity minDiff)
         else Inr closestBase)"

subsection \<open>Encoding\<close>

fun fill_transparent_row :: "int list \<Rightarrow> int \<Rightarrow> image_RGBA \<Rightarrow> image_RGBA" where
  "fill_transparent_row [] y img = img"
| "fill_transparent_row (x # xs) y img = fill_transparent_row xs y (Set_RGBA img x y Transparent)"

fun fill_transparent :: "int list \<Rightarrow> int \<Rightarrow> image_RGBA \<Rightarrow> image_RGBA" where
  "fill_transparent [] imgWidth img = img"
| "fill_transparent (y # ys) imgWidth img =
     fill_transparent ys imgWidth (fill_transparent_row [0..imgWidth - 1] y img)"

text \<open>The two loops over \<open>dx\<close> and \<open>dy\<close> that paint one block.\<close>

fun fill_column :: "int list \<Rightarrow> int \<Rightarrow> int \<Rightarrow> color_RGBA \<Rightarrow> image_RGBA \<Rightarrow> image_RGBA" where
  "fill_column [] xdx y c img = img"
| "fill_column (dy # dys) xdx y c img = fill_column dys xdx y c (Set_RGBA img xdx (y + dy) c)"

fun fill_block :: "int list \<Rightarrow> int \<Rightarrow> int \<Rightarrow> int \<Rightarrow> color_RGBA \<Rightarrow> image_RGBA \<Rightarrow> image_RGBA" where
  "fill_block [] blockSize x y c img = img"
| "fill_block (dx # dxs) blockSize x y c img =
     fill_block dxs blockSize x y c (fill_column [0..blockSize - 1] (x + dx) y c img)"

text \<open>The body of \<open>for i, base := range blockSeq\<close>, and the loop.\<close>

definition encode_base :: "Config \<Rightarrow> int \<Rightarrow> nat \<Rightarrow> rune \<Rightarrow> image_RGBA \<Rightarrow> image_RGBA" where
  "encode_base cfg block i base img =
     (let col = int i smod BlocksPerRow cfg;
          row = (int i sdiv BlocksPerRow cfg) + (block * RowsPerBlock cfg);
          x = col * BlockSize cfg;
          y = row * BlockSize cfg;
          grayVal = dnaGrayscaleMap_at base;
          c = \<lparr> cR = grayVal, cG = grayVal, cB = grayVal, cA = 255 \<rparr>
      in fill_block [0..BlockSize cfg - 1] (BlockSize cfg) x y c img)"

fun encode_bases :: "Config \<Rightarrow> int \<Rightarrow> (nat \<times> rune) list \<Rightarrow> image_RGBA \<Rightarrow> image_RGBA" where
  "encode_bases cfg block [] img = img"
| "encode_bases cfg block ((i, base) # rest) img =
     encode_bases cfg block rest (encode_base cfg block i base img)"

text \<open>
  The body of \<open>for block := 0; block < numBlocks; block++\<close>, and the loop. \<open>start\<close> and
  \<open>end\<close> lie between 0 and the length, so the slice is \<open>take (end - start) (drop start s)\<close>.
\<close>

definition encode_block :: "string \<Rightarrow> Config \<Rightarrow> int \<Rightarrow> int \<Rightarrow> image_RGBA \<Rightarrow> image_RGBA" where
  "encode_block dnaSequence cfg basesPerBlock block img =
     (let start = block * basesPerBlock;
          end0 = start + basesPerBlock;
          end1 = (if end0 > int (length dnaSequence) then int (length dnaSequence) else end0);
          blockSeq = take (nat (end1 - start)) (drop (nat start) dnaSequence)
      in encode_bases cfg block (range_string blockSeq) img)"

fun encode_blocks :: "string \<Rightarrow> Config \<Rightarrow> int \<Rightarrow> int list \<Rightarrow> image_RGBA \<Rightarrow> image_RGBA" where
  "encode_blocks dnaSequence cfg basesPerBlock [] img = img"
| "encode_blocks dnaSequence cfg basesPerBlock (block # blocks) img =
     encode_blocks dnaSequence cfg basesPerBlock blocks
       (encode_block dnaSequence cfg basesPerBlock block img)"

text \<open>
  \<open>dnaToPNGGrayscale\<close>. The writer is the list of the images written to it so far (each
  stands for its PNG encoding); the result is the writer afterwards and the error.

  The sizes \<open>basesPerBlock\<close>, \<open>numBlocks\<close>, \<open>imgWidth\<close> and \<open>imgHeight\<close> are computed as Go
  computes them, with wrap-around, and the division panics when \<open>basesPerBlock\<close> wrapped to
  0. \<open>image.NewRGBA\<close> panics when \<open>4 * imgWidth * imgHeight\<close> has no value in \<open>int\<close>.
  \<open>png.Encode\<close> refuses, before it writes anything, an image with an empty side (which is
  what the empty sequence gives: no block group, height 0) or with a side of \<open>2^32\<close> pixels
  or more. The loops compute without wrap-around: when the sizes did not wrap, every index
  and coordinate in them lies between 0 and the length of the sequence plus
  \<open>basesPerBlock\<close>, or a side of the image.
\<close>

definition dnaToPNGGrayscale ::
    "string \<Rightarrow> image_RGBA list \<Rightarrow> Config \<Rightarrow> image_RGBA list \<times> png_error option" where
  "dnaToPNGGrayscale dnaSequence writer cfg =
     (if BlockSize cfg \<le> 0 then
        (writer, Some (InvalidConfiguration ''block size must be positive''))
      else if BlocksPerRow cfg \<le> 0 then
        (writer, Some (InvalidConfiguration ''blocks per row must be positive''))
      else if RowsPerBlock cfg \<le> 0 then
        (writer, Some (InvalidConfiguration ''rows per block must be positive''))
      else
        (let basesPerBlock = wrap64 (BlocksPerRow cfg * RowsPerBlock cfg)
         in if basesPerBlock = 0 then (writer, Some DivideByZero)
            else
              (let numBlocks = wrap64 (wrap64 (int (length dnaSequence) + basesPerBlock - 1)
                                 sdiv basesPerBlock);
                   imgWidth = wrap64 (BlocksPerRow cfg * BlockSize cfg);
                   imgHeight = wrap64 (numBlocks * RowsPerBlock cfg * BlockSize cfg)
               in if 0 \<le> imgWidth \<and> 0 \<le> imgHeight \<and> 2 ^ 63 \<le> 4 * imgWidth * imgHeight
                  then (writer, Some HugeDimensions)
                  else
                    (let img0 = NewRGBA imgWidth imgHeight;
                         img1 = (if TransparentPad cfg
                                 then fill_transparent [0..imgHeight - 1] imgWidth img0 else img0);
                         img2 = encode_blocks dnaSequence cfg basesPerBlock [0..numBlocks - 1] img1
                     in if imgWidth \<le> 0 \<or> imgHeight \<le> 0
                           \<or> 2 ^ 32 \<le> imgWidth \<or> 2 ^ 32 \<le> imgHeight
                        then (writer, Some PngEncodeFailed)
                        else (writer @ [img2], None)))))"

subsection \<open>Decoding\<close>

text \<open>
  The body of the innermost loop of \<open>pngToDNAGrayscale\<close>, for the block in column \<open>col\<close>
  and block row \<open>blockRow + rowInBlock\<close>: the builder with one more rune, or the error. A
  visit of the map in any order yields the same result at tolerance 20 (lemma
  \<open>findClosest_any_order\<close> below), so the declared order stands for all of them.
\<close>

definition decode_block ::
    "Image \<Rightarrow> Config \<Rightarrow> rune \<Rightarrow> int \<Rightarrow> int \<Rightarrow> string \<Rightarrow> png_error + string" where
  "decode_block img cfg paddingChar col absRow dnaBuilder =
     (let tolerance = 20;
          pixelX = col * BlockSize cfg;
          pixelY = absRow * BlockSize cfg;
          (r, g, b, a) = At_RGBA img pixelX pixelY
      in if a < 0xFFFF div 2 then Inr (dnaBuilder @ encodeRune paddingChar)
         else
           (let intensity = (ucast ((r + g + b) div 3 div 257) :: byte)
            in case findClosestDNABaseGrayscale dnaGrayscaleMap intensity tolerance of
                 Inl err \<Rightarrow> Inl (DecodingPixel pixelX pixelY err)
               | Inr base \<Rightarrow> Inr (dnaBuilder @ encodeRune base)))"

text \<open>
  The three loops, over the step \<open>step col absRow\<close> of one block. The loop over
  \<open>rowInBlock\<close> breaks at the bottom of the image; each loop returns the first error.
\<close>

function rows_loop ::
    "(int \<Rightarrow> int \<Rightarrow> string \<Rightarrow> png_error + string) \<Rightarrow> int \<Rightarrow> int \<Rightarrow> int \<Rightarrow> int \<Rightarrow> int
      \<Rightarrow> string \<Rightarrow> png_error + string" where
  "rows_loop step rowsPerBlock rowsOfBlocks blockRow col rowInBlock dnaBuilder =
     (if rowInBlock < rowsPerBlock then
        (if blockRow + rowInBlock \<ge> rowsOfBlocks then Inr dnaBuilder
         else
           (case step col (blockRow + rowInBlock) dnaBuilder of
              Inl err \<Rightarrow> Inl err
            | Inr dnaBuilder' \<Rightarrow>
                rows_loop step rowsPerBlock rowsOfBlocks blockRow col (rowInBlock + 1) dnaBuilder'))
      else Inr dnaBuilder)"
  by pat_completeness auto
termination
  by (relation "measure (\<lambda>(step, rowsPerBlock, rowsOfBlocks, blockRow, col, rowInBlock, dnaBuilder).
        nat (rowsPerBlock - rowInBlock))") auto

declare rows_loop.simps [simp del]

function cols_loop ::
    "(int \<Rightarrow> int \<Rightarrow> string \<Rightarrow> png_error + string) \<Rightarrow> int \<Rightarrow> int \<Rightarrow> int \<Rightarrow> int \<Rightarrow> int
      \<Rightarrow> string \<Rightarrow> png_error + string" where
  "cols_loop step rowsPerBlock rowsOfBlocks blocksPerRow blockRow col dnaBuilder =
     (if col < blocksPerRow then
        (case rows_loop step rowsPerBlock rowsOfBlocks blockRow col 0 dnaBuilder of
           Inl err \<Rightarrow> Inl err
         | Inr dnaBuilder' \<Rightarrow>
             cols_loop step rowsPerBlock rowsOfBlocks blocksPerRow blockRow (col + 1) dnaBuilder')
      else Inr dnaBuilder)"
  by pat_completeness auto
termination
  by (relation "measure (\<lambda>(step, rowsPerBlock, rowsOfBlocks, blocksPerRow, blockRow, col, dnaBuilder).
        nat (blocksPerRow - col))") auto

declare cols_loop.simps [simp del]

text \<open>
  The outer loop advances \<open>blockRow\<close> by \<open>cfg.RowsPerBlock\<close>, which \<open>pngToDNAGrayscale\<close>
  does not check: with a step of 0 it does not end, and the result is \<open>None\<close>. With a
  positive step the counter stays below the number of block rows plus the step. With a
  negative step Go's counter wraps around after at most \<open>2^63\<close> steps, and the call then
  returns with an empty output; the counter of the model decreases for ever and the result
  is \<open>None\<close>: the model is not exact for a negative step, and no statement below is about
  one.
\<close>

partial_function (option) blockRows_loop ::
    "(int \<Rightarrow> int \<Rightarrow> string \<Rightarrow> png_error + string) \<Rightarrow> int \<Rightarrow> int \<Rightarrow> int \<Rightarrow> int
      \<Rightarrow> string \<Rightarrow> (png_error + string) option" where
  "blockRows_loop step rowsPerBlock rowsOfBlocks blocksPerRow blockRow dnaBuilder =
     (if blockRow < rowsOfBlocks then
        (case cols_loop step rowsPerBlock rowsOfBlocks blocksPerRow blockRow 0 dnaBuilder of
           Inl err \<Rightarrow> Some (Inl err)
         | Inr dnaBuilder' \<Rightarrow>
             blockRows_loop step rowsPerBlock rowsOfBlocks blocksPerRow
               (blockRow + rowsPerBlock) dnaBuilder')
      else Some (Inr dnaBuilder))"

declare blockRows_loop.simps [code]

text \<open>
  \<open>pngToDNAGrayscale\<close>. The reader is the result of \<open>png.Decode\<close> on it (\<open>None\<close> when that
  fails), the writer the bytes written to it so far; the result is the writer afterwards
  and the error, or \<open>None\<close> when the call does not return.
\<close>

definition pngToDNAGrayscale ::
    "Image option \<Rightarrow> string \<Rightarrow> Config \<Rightarrow> (string \<times> png_error option) option" where
  "pngToDNAGrayscale reader writer cfg =
     (if BlockSize cfg \<le> 0 then
        Some (writer, Some (InvalidConfiguration ''block size must be positive''))
      else
        (case reader of
           None \<Rightarrow> Some (writer, Some PngDecodeFailed)
         | Some img \<Rightarrow>
            (let imgWidth = fst (Bounds_Max img);
                 imgHeight = snd (Bounds_Max img)
             in if imgWidth smod BlockSize cfg \<noteq> 0 \<or> imgHeight smod BlockSize cfg \<noteq> 0 then
                  Some (writer, Some (DimensionMismatch imgWidth imgHeight (BlockSize cfg)))
                else
                  (let blocksPerRow = imgWidth sdiv BlockSize cfg;
                       rowsOfBlocks = imgHeight sdiv BlockSize cfg
                   in case PaddingChar cfg of
                        [] \<Rightarrow> Some (writer, Some IndexOutOfRange)
                      | c # _ \<Rightarrow>
                         (let paddingChar = rune_of_byte (byte_of c)
                          in case blockRows_loop (decode_block img cfg paddingChar)
                                    (RowsPerBlock cfg) rowsOfBlocks blocksPerRow 0 [] of
                               None \<Rightarrow> None
                             | Some (Inl err) \<Rightarrow> Some (writer, Some err)
                             | Some (Inr dna) \<Rightarrow> Some (writer @ dna, None))))))"

subsection \<open>Validation of the input sequence\<close>

text \<open>
  \<open>validateDNA\<close>, which \<open>main\<close> applies to the sequence before it encodes it, with
  \<open>rune(cfg.PaddingChar[0])\<close> for the padding symbol.
\<close>

fun validateDNA_loop :: "(nat \<times> rune) list \<Rightarrow> rune \<Rightarrow> bool" where
  "validateDNA_loop [] paddingChar = True"
| "validateDNA_loop ((i, c) # rest) paddingChar =
     (if c \<noteq> rune_lit CHR ''A'' \<and> c \<noteq> rune_lit CHR ''T'' \<and> c \<noteq> rune_lit CHR ''C''
         \<and> c \<noteq> rune_lit CHR ''G'' \<and> c \<noteq> paddingChar
      then False else validateDNA_loop rest paddingChar)"

definition validateDNA :: "string \<Rightarrow> rune \<Rightarrow> bool" where
  "validateDNA sequence paddingChar = validateDNA_loop (range_string sequence) paddingChar"

subsection \<open>Encoding and decoding in turn\<close>

text \<open>
  Encoding a sequence and decoding the image that was written, with the same
  configuration: what \<open>decode(encode(seq))\<close> is.
\<close>

definition decode_encode :: "string \<Rightarrow> Config \<Rightarrow> (string \<times> png_error option) option" where
  "decode_encode dnaSequence cfg =
     (case dnaToPNGGrayscale dnaSequence [] cfg of
        (images, Some err) \<Rightarrow> Some ([], Some err)
      | (images, None) \<Rightarrow> pngToDNAGrayscale (Some (png_image (last images))) [] cfg)"

section \<open>Auxiliary notions for the proofs\<close>

text \<open>The four data symbols, their 2-bit values, and the XOR of two symbols.\<close>

definition dna_bases :: "char set" where
  "dna_bases = {CHR ''A'', CHR ''T'', CHR ''C'', CHR ''G''}"

definition base_char :: "byte \<Rightarrow> char" where
  "base_char v = (if v = 0 then CHR ''A'' else if v = 1 then CHR ''T''
                  else if v = 2 then CHR ''C'' else CHR ''G'')"

definition base_val :: "char \<Rightarrow> byte" where
  "base_val c = (if c = CHR ''A'' then 0 else if c = CHR ''T'' then 1
                 else if c = CHR ''C'' then 2 else 3)"

definition base_xor :: "char \<Rightarrow> char \<Rightarrow> char" where
  "base_xor c k = base_char ((base_val c XOR base_val k) AND 3)"

text \<open>The distance that \<open>findClosestDNABaseGrayscale\<close> computes between two intensities.\<close>

definition diffOf :: "byte \<Rightarrow> byte \<Rightarrow> int" where
  "diffOf intensity mappedIntensity =
     (if intensity > mappedIntensity then uint (intensity - mappedIntensity)
      else uint (mappedIntensity - intensity))"

text \<open>A single opaque pixel of one grey value, as the decoder sees it.\<close>

definition grey_image :: "byte \<Rightarrow> Image" where
  "grey_image v = png_image (Set_RGBA (NewRGBA 1 1) 0 0 \<lparr> cR = v, cG = v, cB = v, cA = 255 \<rparr>)"

text \<open>An image of the given size with every pixel transparent, and a layout of two by two
  blocks of one pixel.\<close>

definition blank_image :: "int \<Rightarrow> int \<Rightarrow> Image" where
  "blank_image w h = png_image (NewRGBA w h)"

definition cfg_1_2_2 :: Config where
  "cfg_1_2_2 = default_cfg \<lparr> BlockSize := 1, BlocksPerRow := 2, RowsPerBlock := 2 \<rparr>"

text \<open>
  The blocks that the three loops of the decoder visit, in order, as pairs of column and
  block row, and the steps over such a list that stop at the first error.
\<close>

fun steps_from ::
    "(int \<Rightarrow> int \<Rightarrow> string \<Rightarrow> png_error + string) \<Rightarrow> (int \<times> int) list \<Rightarrow> string
      \<Rightarrow> png_error + string" where
  "steps_from step [] dnaBuilder = Inr dnaBuilder"
| "steps_from step ((col, absRow) # ps) dnaBuilder =
     (case step col absRow dnaBuilder of
        Inl err \<Rightarrow> Inl err
      | Inr dnaBuilder' \<Rightarrow> steps_from step ps dnaBuilder')"

definition column_visits :: "int \<Rightarrow> int \<Rightarrow> int \<Rightarrow> int \<Rightarrow> int \<Rightarrow> (int \<times> int) list" where
  "column_visits rowsPerBlock rowsOfBlocks blockRow col rowInBlock =
     map (\<lambda>r. (col, blockRow + r)) [rowInBlock..min (rowsPerBlock - 1) (rowsOfBlocks - blockRow - 1)]"

definition group_visits :: "int \<Rightarrow> int \<Rightarrow> int \<Rightarrow> int \<Rightarrow> int \<Rightarrow> (int \<times> int) list" where
  "group_visits rowsPerBlock rowsOfBlocks blocksPerRow blockRow col =
     concat (map (\<lambda>c. column_visits rowsPerBlock rowsOfBlocks blockRow c 0) [col..blocksPerRow - 1])"

function block_rows :: "int \<Rightarrow> int \<Rightarrow> int \<Rightarrow> int list" where
  "block_rows rowsPerBlock rowsOfBlocks blockRow =
     (if 0 < rowsPerBlock \<and> blockRow < rowsOfBlocks
      then blockRow # block_rows rowsPerBlock rowsOfBlocks (blockRow + rowsPerBlock) else [])"
  by pat_completeness auto
termination
  by (relation "measure (\<lambda>(rowsPerBlock, rowsOfBlocks, blockRow). nat (rowsOfBlocks - blockRow))") auto

declare block_rows.simps [simp del]

definition visit_order :: "int \<Rightarrow> int \<Rightarrow> int \<Rightarrow> (int \<times> int) list" where
  "visit_order rowsPerBlock rowsOfBlocks blocksPerRow =
     concat (map (\<lambda>blockRow. group_visits rowsPerBlock rowsOfBlocks blocksPerRow blockRow 0)
       (block_rows rowsPerBlock rowsOfBlocks 0))"

text \<open>
  For the encoder: the colour it gives a symbol, the square of pixels it paints for index
  \<open>i\<close> of block group \<open>block\<close>, the slice of the sequence that a block group holds, the
  number of block groups, the image it builds under a valid layout, and the square of the
  sequence position \<open>p\<close> (block group \<open>p div basesPerBlock\<close>, index \<open>p mod basesPerBlock\<close>).
\<close>

definition gray_of :: "rune \<Rightarrow> color_RGBA" where
  "gray_of base = \<lparr> cR = dnaGrayscaleMap_at base, cG = dnaGrayscaleMap_at base,
                    cB = dnaGrayscaleMap_at base, cA = 255 \<rparr>"

definition block_square :: "Config \<Rightarrow> int \<Rightarrow> nat \<Rightarrow> (int \<times> int) set" where
  "block_square cfg block i =
     {(u, v). let x = (int i smod BlocksPerRow cfg) * BlockSize cfg;
                  y = ((int i sdiv BlocksPerRow cfg) + (block * RowsPerBlock cfg)) * BlockSize cfg
              in x \<le> u \<and> u < x + BlockSize cfg \<and> y \<le> v \<and> v < y + BlockSize cfg}"

definition block_slice :: "string \<Rightarrow> int \<Rightarrow> int \<Rightarrow> string" where
  "block_slice dnaSequence basesPerBlock block =
     take (nat ((if block * basesPerBlock + basesPerBlock > int (length dnaSequence)
                 then int (length dnaSequence) else block * basesPerBlock + basesPerBlock)
                - block * basesPerBlock))
       (drop (nat (block * basesPerBlock)) dnaSequence)"

definition valid_layout :: "Config \<Rightarrow> bool" where
  "valid_layout cfg \<longleftrightarrow> 0 < BlockSize cfg \<and> 0 < BlocksPerRow cfg \<and> 0 < RowsPerBlock cfg"

definition num_blocks :: "string \<Rightarrow> Config \<Rightarrow> int" where
  "num_blocks dnaSequence cfg =
     (int (length dnaSequence) + BlocksPerRow cfg * RowsPerBlock cfg - 1)
       div (BlocksPerRow cfg * RowsPerBlock cfg)"

text \<open>
  The sequences and layouts for which the encoder computes within the range of Go's \<open>int\<close>
  and builds an image that the library accepts: the length of the sequence plus
  \<open>basesPerBlock\<close> has a value in \<open>int\<close> (so no size wraps around and the division is exact),
  both sides of the image are below \<open>2^32\<close> pixels (the limit of \<open>png.Encode\<close>), and the
  pixel buffer of \<open>4 * imgWidth * imgHeight\<close> bytes has a length in \<open>int\<close> (else
  \<open>image.NewRGBA\<close> panics). That the run time has the memory for a buffer of that length
  is assumed throughout, as is the memory for the strings.
\<close>

definition machine_range :: "string \<Rightarrow> Config \<Rightarrow> bool" where
  "machine_range dnaSequence cfg \<longleftrightarrow>
     int (length dnaSequence) + BlocksPerRow cfg * RowsPerBlock cfg < 2 ^ 63 \<and>
     BlocksPerRow cfg * BlockSize cfg < 2 ^ 32 \<and>
     num_blocks dnaSequence cfg * RowsPerBlock cfg * BlockSize cfg < 2 ^ 32 \<and>
     4 * (BlocksPerRow cfg * BlockSize cfg)
       * (num_blocks dnaSequence cfg * RowsPerBlock cfg * BlockSize cfg) < 2 ^ 63"

definition encode_image :: "string \<Rightarrow> Config \<Rightarrow> image_RGBA" where
  "encode_image dnaSequence cfg =
     encode_blocks dnaSequence cfg (BlocksPerRow cfg * RowsPerBlock cfg)
       [0..num_blocks dnaSequence cfg - 1]
       (NewRGBA (BlocksPerRow cfg * BlockSize cfg)
          (num_blocks dnaSequence cfg * RowsPerBlock cfg * BlockSize cfg))"

definition position_square :: "Config \<Rightarrow> nat \<Rightarrow> (int \<times> int) set" where
  "position_square cfg p =
     block_square cfg (int p div (BlocksPerRow cfg * RowsPerBlock cfg))
       (nat (int p mod (BlocksPerRow cfg * RowsPerBlock cfg)))"

text \<open>
  The alpha channel of a sampled colour; two images that agree in their bounds, in every
  alpha and in every colour that is not below the transparency threshold; an image of one
  pixel.
\<close>

definition alpha_of :: "rgba16 \<Rightarrow> 32 word" where
  "alpha_of c = snd (snd (snd c))"

definition same_opaque_pixels :: "Image \<Rightarrow> Image \<Rightarrow> bool" where
  "same_opaque_pixels img img' \<longleftrightarrow>
     Bounds_Max img' = Bounds_Max img \<and>
     (\<forall>x y. alpha_of (At_RGBA img' x y) = alpha_of (At_RGBA img x y) \<and>
            (\<not> alpha_of (At_RGBA img x y) < 0xFFFF div 2 \<longrightarrow> At_RGBA img' x y = At_RGBA img x y))"

definition pixel_image :: "rgba16 \<Rightarrow> Image" where
  "pixel_image c = \<lparr> Bounds_Max = (1, 1), At_RGBA = (\<lambda>x y. if x = 0 \<and> y = 0 then c else (0, 0, 0, 0)) \<rparr>"

text \<open>
  The column and the block row of sequence position \<open>p\<close>, as the encoder computes them:
  \<open>col = i % BlocksPerRow\<close> and \<open>row = i / BlocksPerRow + block * RowsPerBlock\<close> for index \<open>i\<close> of
  block group \<open>block\<close>. An image of two blocks of one pixel, black and of intensity 100.
\<close>

definition position_col :: "Config \<Rightarrow> nat \<Rightarrow> int" where
  "position_col cfg p = (int p mod (BlocksPerRow cfg * RowsPerBlock cfg)) mod BlocksPerRow cfg"

definition position_row :: "Config \<Rightarrow> nat \<Rightarrow> int" where
  "position_row cfg p =
     (int p mod (BlocksPerRow cfg * RowsPerBlock cfg)) div BlocksPerRow cfg
       + (int p div (BlocksPerRow cfg * RowsPerBlock cfg)) * RowsPerBlock cfg"

definition two_block_image :: Image where
  "two_block_image =
     png_image (Set_RGBA (Set_RGBA (NewRGBA 2 1) 0 0 \<lparr> cR = 0, cG = 0, cB = 0, cA = 255 \<rparr>)
       1 0 \<lparr> cR = 100, cG = 100, cB = 100, cA = 255 \<rparr>)"

text \<open>
  A layout of two blocks of two by two pixels per row with one row per block group, and
  the strings of single-byte characters, for which \<open>range\<close> yields one rune per byte.
\<close>

definition cfg_2_2_1 :: Config where
  "cfg_2_2_1 = default_cfg \<lparr> BlockSize := 2, BlocksPerRow := 2, RowsPerBlock := 1 \<rparr>"

definition ascii_string :: "string \<Rightarrow> bool" where
  "ascii_string s \<longleftrightarrow> (\<forall>c \<in> set s. byte_of c < 0x80)"

text \<open>
  The blocks of an image in the order in which \<open>pngToDNAGrayscale\<close> visits them, and the
  images all of whose pixels are transparent or of a grey that the encoder paints.
\<close>

definition decode_order :: "Image \<Rightarrow> Config \<Rightarrow> (int \<times> int) list" where
  "decode_order img cfg =
     visit_order (RowsPerBlock cfg) (snd (Bounds_Max img) sdiv BlockSize cfg)
       (fst (Bounds_Max img) sdiv BlockSize cfg)"


section \<open>The one-time pad: encryption followed by decryption\<close>

lemma and3_take_bit: "(x::byte) AND 3 = take_bit 2 x"
  using take_bit_eq_mask [of 2 x] by (simp add: mask_eq_exp_minus_1)

lemma bit_byte_eqI:
  assumes "bit a 0 = bit b 0" "bit a 1 = bit b 1" "bit a 2 = bit b 2" "bit a 3 = bit b 3"
   "bit a 4 = bit b 4" "bit a 5 = bit b 5" "bit a 6 = bit b 6" "bit a 7 = bit b 7"
  shows "a = (b::byte)"
proof (rule bit_word_eqI)
  fix n :: nat
  assume "n < LENGTH(8)"
  then have "n \<in> {0, 1, 2, 3, 4, 5, 6, 7}" by auto
  with assms show "bit a n = bit b n" by auto
qed

lemma recompose:
  "push_bit 2 (push_bit 2 (push_bit 2 (push_bit 2 0 OR (drop_bit 6 b AND 3))
       OR (drop_bit 4 b AND 3)) OR (drop_bit 2 b AND 3)) OR (b AND 3) = (b::byte)"
  unfolding and3_take_bit
  by (rule bit_byte_eqI) (simp_all add: bit_simps)

lemma and3_cases: "(x::byte) AND 3 = 0 \<or> x AND 3 = 1 \<or> x AND 3 = 2 \<or> x AND 3 = 3"
proof -
  have "bit x 0 \<and> bit x 1 \<Longrightarrow> take_bit 2 x = 3"
    by (rule bit_byte_eqI) (simp_all add: bit_simps)
  moreover have "bit x 0 \<and> \<not> bit x 1 \<Longrightarrow> take_bit 2 x = 1"
    by (rule bit_byte_eqI) (simp_all add: bit_simps)
  moreover have "\<not> bit x 0 \<and> bit x 1 \<Longrightarrow> take_bit 2 x = 2"
    by (rule bit_byte_eqI) (simp_all add: bit_simps)
  moreover have "\<not> bit x 0 \<and> \<not> bit x 1 \<Longrightarrow> take_bit 2 x = 0"
    by (rule bit_byte_eqI) (simp_all add: bit_simps)
  ultimately show ?thesis unfolding and3_take_bit by blast
qed

lemma twoBitsToDNA_and3: "twoBitsToDNA (x AND 3) = [base_char (x AND 3)]"
  using and3_cases [of x] by (auto simp: twoBitsToDNA_def base_char_def)

lemma byteToDNA_chars:
  "byteToDNA b = [base_char (drop_bit 6 b AND 3), base_char (drop_bit 4 b AND 3),
                  base_char (drop_bit 2 b AND 3), base_char (b AND 3)]"
  by (simp add: byteToDNA_def twoBitsToDNA_and3)

lemma base_char_in_bases: "base_char v \<in> dna_bases"
  by (simp add: base_char_def dna_bases_def)

lemma range_from_base:
  "c \<in> dna_bases \<Longrightarrow> range_from i 0 (c # cs) = (i, rune_lit c) # range_from (Suc i) 0 cs"
  by (auto simp: dna_bases_def byte_of_def rune_of_byte_def rune_lit_def)

lemma dnaToByte_loop_base:
  "dnaToByte_loop ((i, rune_lit (base_char (x AND 3))) # rs) acc
     = dnaToByte_loop rs (push_bit 2 acc OR (x AND 3))"
  using and3_cases [of x] by (auto simp: base_char_def rune_lit_def)

lemma dnaToByte_byteToDNA: "dnaToByte (byteToDNA b) = Inr b"
proof -
  have len: "length (byteToDNA b) = 4"
    by (simp add: byteToDNA_chars)
  have "dnaToByte_loop (range_string (byteToDNA b)) 0 =
     Inr (push_bit 2 (push_bit 2 (push_bit 2 (push_bit 2 0 OR (drop_bit 6 b AND 3))
            OR (drop_bit 4 b AND 3)) OR (drop_bit 2 b AND 3)) OR (b AND 3))"
    by (simp only: byteToDNA_chars range_string_def range_from_base [OF base_char_in_bases]
        dnaToByte_loop_base range_from.simps(1) dnaToByte_loop.simps(1))
  then have "dnaToByte_loop (range_string (byteToDNA b)) 0 = Inr b"
    by (simp only: recompose)
  then show ?thesis
    by (simp add: dnaToByte_def len)
qed

lemma length_byteToDNA: "length (byteToDNA b) = 4"
  by (simp add: byteToDNA_chars)

lemma byteToDNA_bases: "set (byteToDNA b) \<subseteq> dna_bases"
  by (simp add: byteToDNA_chars base_char_in_bases)

lemma unat_byte_of: "unat (byte_of c) = of_char c"
proof -
  have "unat (word_of_nat (of_char c) :: byte) = of_char c"
    by (simp add: unat_of_nat take_bit_eq_mod)
  then show ?thesis by (simp add: byte_of_def of_nat_of_char)
qed

lemma char_from_byte_of: "char_from (byte_of c) = c"
  by (simp add: char_from_def unat_byte_of)


lemma textToDNA_loop_append:
  "textToDNA_loop p acc = acc @ concat (map (\<lambda>c. byteToDNA (byte_of c)) p)"
  by (induction p arbitrary: acc) simp_all

lemma textToDNA_concat: "textToDNA p = concat (map (\<lambda>c. byteToDNA (byte_of c)) p)"
  by (simp add: textToDNA_def textToDNA_loop_append)

lemma textToDNA_Nil: "textToDNA [] = []"
  by (simp add: textToDNA_concat)

lemma textToDNA_Cons: "textToDNA (c # cs) = byteToDNA (byte_of c) @ textToDNA cs"
  by (simp add: textToDNA_concat)

lemma length_textToDNA: "length (textToDNA p) = 4 * length p"
  by (induction p) (simp_all add: textToDNA_Nil textToDNA_Cons length_byteToDNA)

lemma textToDNA_bases: "set (textToDNA p) \<subseteq> dna_bases"
  using byteToDNA_bases by (induction p) (auto simp: textToDNA_Nil textToDNA_Cons)

lemma dnaToText_loop_textToDNA:
  "drop i dna = textToDNA p \<Longrightarrow> dnaToText_loop dna i acc = Inr (acc @ p)"
proof (induction p arbitrary: i acc)
  case Nil
  then have "\<not> i < length dna" by (simp add: textToDNA_Nil)
  then show ?case by (subst dnaToText_loop.simps) simp
next
  case (Cons c cs)
  from Cons.prems have d: "drop i dna = byteToDNA (byte_of c) @ textToDNA cs"
    by (simp add: textToDNA_Cons)
  then have lt: "i < length dna"
    using length_byteToDNA [of "byte_of c"] by (cases "i < length dna") auto
  from d have seg: "take 4 (drop i dna) = byteToDNA (byte_of c)"
    by (simp add: length_byteToDNA)
  have "drop (i + 4) dna = drop 4 (drop i dna)"
    by (simp add: add.commute)
  with d have rest: "drop (i + 4) dna = textToDNA cs"
    by (simp add: length_byteToDNA)
  show ?case
    by (subst dnaToText_loop.simps)
       (simp add: lt seg dnaToByte_byteToDNA char_from_byte_of Cons.IH [OF rest])
qed

lemma dnaToText_textToDNA: "dnaToText (textToDNA p) = Inr p"
  using dnaToText_loop_textToDNA [of 0 "textToDNA p" p "[]"]
  by (simp add: dnaToText_def length_textToDNA)


lemma base_xor_in_bases: "base_xor c k \<in> dna_bases"
  by (simp add: base_xor_def base_char_in_bases)

lemma dnaBaseToBinary_base:
  "c \<in> dna_bases \<Longrightarrow> dnaBaseToBinary (rune_of_byte (byte_of c)) = Inr (base_val c)"
  unfolding dna_bases_def
  by (elim insertE emptyE; simp add: dnaBaseToBinary_def rune_of_byte_def byte_of_def rune_lit_def base_val_def)

lemma binaryToDNABase_xor:
  "binaryToDNABase (base_val c XOR base_val k) = Inr (rune_lit (base_xor c k))"
  using and3_cases [of "base_val c XOR base_val k"]
  by (auto simp: binaryToDNABase_def base_xor_def base_char_def)

lemma encodeRune_base: "c \<in> dna_bases \<Longrightarrow> encodeRune (rune_lit c) = [c]"
  unfolding dna_bases_def
  by (elim insertE emptyE; hypsubst; code_simp)

lemma xor_step:
  assumes "i < length d1" "d1 ! i \<in> dna_bases" "d2 ! i \<in> dna_bases"
  shows "xorDNAStrings_loop d1 d2 i acc
           = xorDNAStrings_loop d1 d2 (Suc i) (acc @ [base_xor (d1 ! i) (d2 ! i)])"
  by (subst xorDNAStrings_loop.simps)
     (simp add: assms dnaBaseToBinary_base binaryToDNABase_xor encodeRune_base base_xor_in_bases)

lemma base_xor_cancel:
  "c \<in> dna_bases \<Longrightarrow> k \<in> dna_bases \<Longrightarrow> base_xor (base_xor c k) k = c"
  unfolding dna_bases_def
  by (elim insertE emptyE; simp add: base_xor_def base_val_def base_char_def)

lemma xor_loop_bases:
  assumes "length d1 = length d2" "set d1 \<subseteq> dna_bases" "set d2 \<subseteq> dna_bases"
  shows "xorDNAStrings_loop d1 d2 i acc = Inr (acc @ map2 base_xor (drop i d1) (drop i d2))"
proof (induction "length d1 - i" arbitrary: i acc)
  case 0
  then have "\<not> i < length d1" by simp
  with assms(1) show ?case by (subst xorDNAStrings_loop.simps) simp
next
  case (Suc n)
  then have lt: "i < length d1" and n: "n = length d1 - Suc i" by simp_all
  with assms have b: "d1 ! i \<in> dna_bases" "d2 ! i \<in> dna_bases"
    by (auto simp: subset_iff)
  from lt assms(1) have "drop i d1 = d1 ! i # drop (Suc i) d1" "drop i d2 = d2 ! i # drop (Suc i) d2"
    by (simp_all add: Cons_nth_drop_Suc)
  then show ?case
    by (simp add: xor_step [OF lt b] Suc.hyps(1) [OF n])
qed

lemma xorDNAStrings_bases:
  assumes "length d1 = length d2" "set d1 \<subseteq> dna_bases" "set d2 \<subseteq> dna_bases"
  shows "xorDNAStrings d1 d2 = Inr (map2 base_xor d1 d2)"
  using xor_loop_bases [OF assms, of 0 "[]"] assms(1) by (simp add: xorDNAStrings_def)

lemma map2_base_xor_bases: "set (map2 base_xor d1 d2) \<subseteq> dna_bases"
  using base_xor_in_bases by (auto simp: set_zip)

lemma map2_base_xor_cancel:
  "length d1 = length d2 \<Longrightarrow> set d1 \<subseteq> dna_bases \<Longrightarrow> set d2 \<subseteq> dna_bases
    \<Longrightarrow> map2 base_xor (map2 base_xor d1 d2) d2 = d1"
proof (induction d1 arbitrary: d2)
  case Nil
  then show ?case by simp
next
  case (Cons c cs)
  then show ?case by (cases d2) (simp_all add: base_xor_cancel)
qed

text \<open>
  Claim C10. For every byte string \<open>p\<close> and every key \<open>k\<close> over A, T, C, G of length
  \<open>4 * len(p)\<close>, turning \<open>p\<close> into DNA, XORing it with \<open>k\<close>, XORing the result with \<open>k\<close>
  again and reading the DNA back as text succeeds and returns \<open>p\<close>.
\<close>

theorem otp_roundtrip:
  assumes "set k \<subseteq> {CHR ''A'', CHR ''T'', CHR ''C'', CHR ''G''}" "length k = 4 * length p"
  shows "encrypt_then_decrypt p k = Inr p"
proof -
  let ?d = "textToDNA p"
  have len: "length ?d = length k" using assms(2) by (simp add: length_textToDNA)
  have kb: "set k \<subseteq> dna_bases" using assms(1) by (simp add: dna_bases_def)
  have e: "xorDNAStrings ?d k = Inr (map2 base_xor ?d k)"
    by (rule xorDNAStrings_bases [OF len textToDNA_bases kb])
  have d: "xorDNAStrings (map2 base_xor ?d k) k = Inr ?d"
    using xorDNAStrings_bases [OF _ map2_base_xor_bases kb, of ?d k]
      map2_base_xor_cancel [OF len textToDNA_bases kb] len by simp
  show ?thesis
    by (simp add: encrypt_then_decrypt_def e d dnaToText_textToDNA)
qed

theorem otp_roundtrip_witness:
  "set ''ATCGGCTA'' \<subseteq> {CHR ''A'', CHR ''T'', CHR ''C'', CHR ''G''} \<and> length ''ATCGGCTA'' = 4 * length ''Hi''
    \<and> encrypt_then_decrypt ''Hi'' ''ATCGGCTA'' = Inr ''Hi''"
  using otp_roundtrip [of "''ATCGGCTA''" "''Hi''"] by simp

section \<open>Runes of single bytes\<close>

lemma unat_rune_lit: "unat (rune_lit c) = of_char c"
proof -
  have "(of_char c :: nat) < 4294967296"
    using nat_of_char_less_256 [of c] by linarith
  then have "unat (word_of_nat (of_char c) :: rune) = of_char c"
    by (simp add: unat_of_nat take_bit_eq_mod)
  then show ?thesis by (simp add: rune_lit_def of_nat_of_char)
qed

lemma rune_lit_inj: "rune_lit c = rune_lit d \<longleftrightarrow> c = d"
proof
  assume "rune_lit c = rune_lit d"
  then have "unat (rune_lit c) = unat (rune_lit d)" by simp
  then show "c = d" by (simp add: unat_rune_lit)
qed simp

lemma rune_of_byte_byte_of: "rune_of_byte (byte_of c) = rune_lit c"
proof -
  have "unat (byte_of c) < 4294967296"
    using nat_of_char_less_256 [of c] unfolding unat_byte_of by linarith
  then have "unat (ucast (byte_of c) :: rune) = unat (byte_of c)"
    by (simp add: unsigned_ucast_eq take_bit_eq_mod)
  then have "unat (rune_of_byte (byte_of c)) = unat (rune_lit c)"
    by (simp add: rune_of_byte_def unat_byte_of unat_rune_lit)
  then show ?thesis by (simp only: word_unat_eq_iff)
qed

lemma gray_of_unmapped:
  assumes "c \<notin> dna_bases" "byte_of c < 0x80"
  shows "gray_of (rune_of_byte (byte_of c)) = \<lparr> cR = 0, cG = 0, cB = 0, cA = 255 \<rparr>"
proof -
  have inj: "rune_of_byte (byte_of c) = rune_lit d \<longleftrightarrow> c = d" for d
    by (simp add: rune_of_byte_byte_of rune_lit_inj)
  from assms(1) have "map_of dnaGrayscaleMap (rune_of_byte (byte_of c)) = None"
    by (simp add: dnaGrayscaleMap_def inj dna_bases_def)
  then show ?thesis by (simp add: gray_of_def dnaGrayscaleMap_at_def)
qed

lemma ucast_rune_lit: "(ucast (rune_lit c) :: byte) = byte_of c"
proof -
  have "unat (ucast (rune_lit c) :: byte) = unat (byte_of c)"
    using nat_of_char_less_256 [of c]
    by (simp add: unsigned_ucast_eq take_bit_eq_mod unat_rune_lit unat_byte_of)
  then show ?thesis by (simp only: word_unat_eq_iff)
qed

lemma encodeRune_ascii:
  assumes "byte_of c < 0x80"
  shows "encodeRune (rune_of_byte (byte_of c)) = [c]"
proof -
  from assms have "unat (byte_of c) < 128" by (simp add: word_less_nat_alt)
  then have "unat (rune_lit c) \<le> 127" by (simp add: unat_rune_lit unat_byte_of)
  then have "rune_lit c \<le> 0x7F" by (simp add: word_le_nat_alt)
  then show ?thesis
    by (simp add: encodeRune_def rune_of_byte_byte_of ucast_rune_lit char_from_byte_of)
qed

section \<open>Classification of a sampled intensity\<close>

lemma diffOf_abs: "diffOf i m = \<bar>uint i - uint m\<bar>"
  by (auto simp: diffOf_def word_less_def uint_sub_lem [symmetric])

lemma closest_loop_fst:
  "fst (closest_loop xs i md cb) = Min (insert md ((\<lambda>(b, m). diffOf i m) ` set xs))"
proof (induction xs arbitrary: md cb)
  case Nil
  then show ?case by simp
next
  case (Cons x xs)
  obtain b m where x: "x = (b, m)" by (cases x)
  let ?S = "(\<lambda>(b, m). diffOf i m) ` set xs"
  have fin: "finite ?S" by simp
  have "Min (insert md (insert (diffOf i m) ?S)) = Min (insert (min md (diffOf i m)) ?S)"
    by (cases "?S = {}") (simp_all add: Min_insert min.assoc min.commute)
  then show ?case
    using Cons.IH by (auto simp: x Let_def diffOf_def[symmetric] min_def insert_commute)
qed

lemma closest_loop_snd:
  "closest_loop xs i md cb = (md', cb') \<Longrightarrow>
     (md' = md \<and> cb' = cb) \<or> (md' < md \<and> (\<exists>m. (cb', m) \<in> set xs \<and> diffOf i m = md'))"
proof (induction xs arbitrary: md cb)
  case Nil
  then show ?case by simp
next
  case (Cons x xs)
  obtain b m where x: "x = (b, m)" by (cases x)
  show ?case
  proof (cases "diffOf i m < md")
    case True
    with Cons.prems have "closest_loop xs i (diffOf i m) b = (md', cb')"
      by (simp add: x Let_def diffOf_def)
    from Cons.IH [OF this] True show ?thesis by (auto simp: x)
  next
    case False
    with Cons.prems have "closest_loop xs i md cb = (md', cb')"
      by (simp add: x Let_def diffOf_def)
    from Cons.IH [OF this] show ?thesis by (auto simp: x)
  qed
qed


lemma diffOf_bounds: "0 \<le> diffOf i m" "diffOf i m \<le> 255"
proof -
  have "uint i < 256" "uint m < 256" "0 \<le> uint i" "0 \<le> uint m"
    using uint_bounded [of i] uint_bounded [of m] by simp_all
  then show "0 \<le> diffOf i m" "diffOf i m \<le> 255"
    unfolding diffOf_abs by linarith+
qed

lemma map_entries:
  "(b, m) \<in> set dnaGrayscaleMap \<longleftrightarrow>
     (b = rune_lit CHR ''A'' \<and> m = 0) \<or> (b = rune_lit CHR ''T'' \<and> m = 64) \<or>
     (b = rune_lit CHR ''C'' \<and> m = 128) \<or> (b = rune_lit CHR ''G'' \<and> m = 192)"
  by (auto simp: dnaGrayscaleMap_def)

lemma close_entry_unique:
  assumes "(b1, m1) \<in> set dnaGrayscaleMap" "(b2, m2) \<in> set dnaGrayscaleMap"
    and "diffOf i m1 = diffOf i m2" "diffOf i m1 < 32"
  shows "b1 = b2"
  using assms unfolding map_entries diffOf_abs
  by (elim disjE conjE; simp; linarith?)

lemma closest_loop_visit:
  assumes "set visit = set dnaGrayscaleMap"
  shows "fst (closest_loop visit i 256 cb) = fst (closest_loop dnaGrayscaleMap i 256 cb)"
    and "fst (closest_loop visit i 256 cb) < 32 \<Longrightarrow>
           snd (closest_loop visit i 256 cb) = snd (closest_loop dnaGrayscaleMap i 256 cb)"
    and "0 \<le> fst (closest_loop visit i 256 cb)" "fst (closest_loop visit i 256 cb) \<le> 255"
proof -
  show eq: "fst (closest_loop visit i 256 cb) = fst (closest_loop dnaGrayscaleMap i 256 cb)"
    by (simp only: closest_loop_fst assms)
  obtain md c where v: "closest_loop visit i 256 cb = (md, c)" by (cases "closest_loop visit i 256 cb")
  obtain md' c' where d: "closest_loop dnaGrayscaleMap i 256 cb = (md', c')"
    by (cases "closest_loop dnaGrayscaleMap i 256 cb")
  have mem: "(rune_lit CHR ''A'', 0) \<in> set visit" by (simp add: assms dnaGrayscaleMap_def)
  have "md \<le> diffOf i 0"
    using closest_loop_fst [of visit i 256 cb] mem v
    by (auto intro!: Min_le)
  with diffOf_bounds(2) [of i 0] have lt: "md < 256" by linarith
  from closest_loop_snd [OF v] lt obtain m where m: "(c, m) \<in> set visit" "diffOf i m = md"
    by auto
  from eq v d have mdeq: "md' = md" by simp
  from closest_loop_snd [OF d] lt mdeq obtain m' where m': "(c', m') \<in> set dnaGrayscaleMap" "diffOf i m' = md"
    by auto
  show "0 \<le> fst (closest_loop visit i 256 cb)" "fst (closest_loop visit i 256 cb) \<le> 255"
    using m(2) diffOf_bounds [of i m] v by simp_all
  show "snd (closest_loop visit i 256 cb) = snd (closest_loop dnaGrayscaleMap i 256 cb)"
    if "fst (closest_loop visit i 256 cb) < 32"
    using close_entry_unique [of c m c' m' i] m m' that v d assms by simp
qed

lemma word_of_int_byte_gt:
  assumes "0 \<le> d" "d \<le> 255"
  shows "(word_of_int d :: byte) > tol \<longleftrightarrow> d > uint tol"
proof -
  have "uint (word_of_int d :: byte) = d"
    using assms by (simp add: uint_word_of_int take_bit_eq_mod)
  then show ?thesis by (simp add: word_less_def)
qed

lemma findClosest_any_order:
  assumes "set visit = set dnaGrayscaleMap" "tolerance < 32"
  shows "findClosestDNABaseGrayscale visit intensity tolerance
           = findClosestDNABaseGrayscale dnaGrayscaleMap intensity tolerance"
proof -
  note cl = closest_loop_visit [OF assms(1), of intensity 0]
  obtain md c where v: "closest_loop visit intensity 256 0 = (md, c)"
    by (cases "closest_loop visit intensity 256 0")
  obtain md' c' where d: "closest_loop dnaGrayscaleMap intensity 256 0 = (md', c')"
    by (cases "closest_loop dnaGrayscaleMap intensity 256 0")
  from cl v d have mdeq: "md' = md" and rng: "0 \<le> md" "md \<le> 255" by simp_all
  have t: "uint tolerance < 32" using assms(2) by (simp add: word_less_def)
  show ?thesis
  proof (cases "md > uint tolerance")
    case True
    then show ?thesis
      by (simp add: findClosestDNABaseGrayscale_def v d mdeq word_of_int_byte_gt [OF rng])
  next
    case False
    with t have "md < 32" by linarith
    with cl(2) v d have "c = c'" by simp
    with False show ?thesis
      by (simp add: findClosestDNABaseGrayscale_def v d mdeq word_of_int_byte_gt [OF rng])
  qed
qed


lemma decode_block_opaque:
  assumes "At_RGBA img (col * BlockSize cfg) (absRow * BlockSize cfg) = (r, g, b, a)"
    and "\<not> a < 0xFFFF div 2"
  shows "decode_block img cfg paddingChar col absRow dnaBuilder =
     (case findClosestDNABaseGrayscale dnaGrayscaleMap (ucast ((r + g + b) div 3 div 257)) 20 of
        Inl err \<Rightarrow> Inl (DecodingPixel (col * BlockSize cfg) (absRow * BlockSize cfg) err)
      | Inr base \<Rightarrow> Inr (dnaBuilder @ encodeRune base))"
  using assms by (simp add: decode_block_def Let_def)

lemma findClosest_within:
  "findClosestDNABaseGrayscale dnaGrayscaleMap 20 20 = Inr (rune_lit CHR ''A'')"
  "findClosestDNABaseGrayscale dnaGrayscaleMap 44 20 = Inr (rune_lit CHR ''T'')"
  "findClosestDNABaseGrayscale dnaGrayscaleMap 84 20 = Inr (rune_lit CHR ''T'')"
  "findClosestDNABaseGrayscale dnaGrayscaleMap 108 20 = Inr (rune_lit CHR ''C'')"
  "findClosestDNABaseGrayscale dnaGrayscaleMap 148 20 = Inr (rune_lit CHR ''C'')"
  "findClosestDNABaseGrayscale dnaGrayscaleMap 172 20 = Inr (rune_lit CHR ''G'')"
  "findClosestDNABaseGrayscale dnaGrayscaleMap 212 20 = Inr (rune_lit CHR ''G'')"
  by (simp_all add: findClosestDNABaseGrayscale_def dnaGrayscaleMap_def Let_def)

lemma findClosest_beyond:
  "findClosestDNABaseGrayscale dnaGrayscaleMap 21 20 = Inl (UnclassifiablePixel 21 21)"
  "findClosestDNABaseGrayscale dnaGrayscaleMap 43 20 = Inl (UnclassifiablePixel 43 21)"
  "findClosestDNABaseGrayscale dnaGrayscaleMap 85 20 = Inl (UnclassifiablePixel 85 21)"
  "findClosestDNABaseGrayscale dnaGrayscaleMap 107 20 = Inl (UnclassifiablePixel 107 21)"
  "findClosestDNABaseGrayscale dnaGrayscaleMap 149 20 = Inl (UnclassifiablePixel 149 21)"
  "findClosestDNABaseGrayscale dnaGrayscaleMap 171 20 = Inl (UnclassifiablePixel 171 21)"
  "findClosestDNABaseGrayscale dnaGrayscaleMap 213 20 = Inl (UnclassifiablePixel 213 21)"
  by (simp_all add: findClosestDNABaseGrayscale_def dnaGrayscaleMap_def Let_def)

text \<open>
  Claim C4. With the tolerance of 20 that the decoder uses, an opaque block whose sampled
  intensity is exactly 20 above or below the intensity of a symbol (within 0..255) is
  classified as that symbol, whatever the order in which the map is visited; an intensity
  exactly 21 above or below fails with \<open>UnclassifiablePixel\<close> and a minimal distance of 21.
\<close>

theorem tolerance_boundary:
  assumes "(base, s) \<in> set dnaGrayscaleMap" and "set visit = set dnaGrayscaleMap"
    and "At_RGBA img (col * BlockSize cfg) (absRow * BlockSize cfg) = (r, g, b, a)"
    and "\<not> a < 0xFFFF div 2"
    and "i = ucast ((r + g + b) div 3 div 257)"
  shows "((i = s + 20 \<and> uint s + 20 \<le> 255) \<or> (i = s - 20 \<and> 20 \<le> uint s) \<longrightarrow>
            findClosestDNABaseGrayscale visit i 20 = Inr base \<and>
            decode_block img cfg paddingChar col absRow dnaBuilder
              = Inr (dnaBuilder @ encodeRune base)) \<and>
         ((i = s + 21 \<and> uint s + 21 \<le> 255) \<or> (i = s - 21 \<and> 21 \<le> uint s) \<longrightarrow>
            findClosestDNABaseGrayscale visit i 20 = Inl (UnclassifiablePixel i 21) \<and>
            decode_block img cfg paddingChar col absRow dnaBuilder
              = Inl (DecodingPixel (col * BlockSize cfg) (absRow * BlockSize cfg)
                       (UnclassifiablePixel i 21)))"
proof -
  have any: "findClosestDNABaseGrayscale visit i 20 = findClosestDNABaseGrayscale dnaGrayscaleMap i 20"
    by (rule findClosest_any_order [OF assms(2)]) simp
  note blk = decode_block_opaque [OF assms(3,4), of paddingChar dnaBuilder, folded assms(5)]
  from assms(1) show ?thesis
    unfolding map_entries any blk
    by (elim disjE conjE; simp add: findClosest_within findClosest_beyond)
qed


theorem tolerance_boundary_witness:
  "(rune_lit CHR ''T'', 64) \<in> set dnaGrayscaleMap \<and> set (rev dnaGrayscaleMap) = set dnaGrayscaleMap \<and>
   At_RGBA (grey_image 84) (0 * BlockSize default_cfg) (0 * BlockSize default_cfg)
     = (21588, 21588, 21588, 65535) \<and>
   \<not> (65535 :: 32 word) < 0xFFFF div 2 \<and>
   (84 :: byte) = ucast (((21588 :: 32 word) + 21588 + 21588) div 3 div 257) \<and>
   (84 :: byte) = 64 + 20 \<and> uint (64 :: byte) + 20 \<le> 255 \<and>
   findClosestDNABaseGrayscale (rev dnaGrayscaleMap) 84 20 = Inr (rune_lit CHR ''T'') \<and>
   decode_block (grey_image 84) default_cfg (rune_lit CHR ''N'') 0 0 ''AC'' = Inr ''ACT''"
proof -
  have h1: "(rune_lit CHR ''T'', 64) \<in> set dnaGrayscaleMap" by (simp add: dnaGrayscaleMap_def)
  have h2: "set (rev dnaGrayscaleMap) = set dnaGrayscaleMap" by simp
  have h3: "At_RGBA (grey_image 84) (0 * BlockSize default_cfg) (0 * BlockSize default_cfg)
     = (21588, 21588, 21588, 65535)"
    by (simp add: grey_image_def png_image_def Set_RGBA_def NewRGBA_def in_Rect_def RGBA_of_def)
  have h4: "\<not> (65535 :: 32 word) < 0xFFFF div 2" by simp
  have h5: "(84 :: byte) = ucast (((21588 :: 32 word) + 21588 + 21588) div 3 div 257)" by simp
  have e: "encodeRune (rune_lit CHR ''T'') = ''T''" by code_simp
  have c: "(84 :: byte) = 64 + 20 \<and> uint (64 :: byte) + 20 \<le> 255" by simp
  note r = tolerance_boundary [OF h1 h2 h3 h4 h5, where paddingChar = "rune_lit CHR ''N''"
        and dnaBuilder = "''AC''", THEN conjunct1, rule_format, OF disjI1, OF c]
  have d: "decode_block (grey_image 84) default_cfg (rune_lit CHR ''N'') 0 0 ''AC'' = Inr ''ACT''"
    using r [THEN conjunct2] by (simp add: e)
  show ?thesis
    by (intro conjI) (rule h1 h2 h3 h4 h5 c [THEN conjunct1] c [THEN conjunct2] r [THEN conjunct1] d)+
qed

section \<open>Validation of the layout and of the image size; the round trip at a 2 by 2 layout\<close>

lemma smod_eq_0_iff_dvd: "b \<noteq> 0 \<Longrightarrow> (a smod b = 0) = (b dvd a)" for a b :: int
  by (auto simp: smod_int_alt_def sgn_if mod_eq_0_iff_dvd)

lemma sdiv_nonneg: "0 \<le> a \<Longrightarrow> 0 < b \<Longrightarrow> a sdiv b = a div b" for a b :: int
  by (simp add: signed_divide_int_def sgn_if)

lemma smod_nonneg: "0 \<le> a \<Longrightarrow> 0 < b \<Longrightarrow> a smod b = a mod b" for a b :: int
  by (simp add: smod_int_alt_def sgn_if)

text \<open>
  Claim C6. When the width or the height of the input image is not an exact multiple of the
  (positive) block size, \<open>pngToDNAGrayscale\<close> returns the dimension error and leaves its
  writer as it was: no sequence is written.
\<close>

theorem decode_dimension_mismatch:
  assumes "0 < BlockSize cfg"
    and "\<not> BlockSize cfg dvd fst (Bounds_Max img) \<or> \<not> BlockSize cfg dvd snd (Bounds_Max img)"
  shows "pngToDNAGrayscale (Some img) writer cfg =
           Some (writer, Some (DimensionMismatch (fst (Bounds_Max img)) (snd (Bounds_Max img))
                                 (BlockSize cfg)))"
proof -
  from assms(1) have nz: "BlockSize cfg \<noteq> 0" by simp
  from assms(2) have "fst (Bounds_Max img) smod BlockSize cfg \<noteq> 0
      \<or> snd (Bounds_Max img) smod BlockSize cfg \<noteq> 0"
    by (simp add: smod_eq_0_iff_dvd [OF nz])
  with assms(1) show ?thesis
    by (simp add: pngToDNAGrayscale_def Let_def)
qed

theorem decode_dimension_mismatch_witness:
  "0 < BlockSize default_cfg \<and> \<not> BlockSize default_cfg dvd fst (Bounds_Max (blank_image 95 100)) \<and>
   pngToDNAGrayscale (Some (blank_image 95 100)) ''ATCG'' default_cfg =
     Some (''ATCG'', Some (DimensionMismatch 95 100 10))"
proof -
  have h1: "0 < BlockSize default_cfg" by (simp add: default_cfg_def)
  have h2: "\<not> BlockSize default_cfg dvd fst (Bounds_Max (blank_image 95 100))"
    by (simp add: default_cfg_def blank_image_def png_image_def NewRGBA_def)
  have "pngToDNAGrayscale (Some (blank_image 95 100)) ''ATCG'' default_cfg =
     Some (''ATCG'', Some (DimensionMismatch (fst (Bounds_Max (blank_image 95 100)))
       (snd (Bounds_Max (blank_image 95 100))) (BlockSize default_cfg)))"
    by (rule decode_dimension_mismatch [OF h1 disjI1 [OF h2]])
  then have "pngToDNAGrayscale (Some (blank_image 95 100)) ''ATCG'' default_cfg =
     Some (''ATCG'', Some (DimensionMismatch 95 100 10))"
    by (simp add: default_cfg_def blank_image_def png_image_def NewRGBA_def)
  with h1 h2 show ?thesis by (intro conjI)
qed

text \<open>
  Claim C3, as stated, fails for the decoder: it checks the block size only. With
  \<open>BlocksPerRow = 0\<close> it decodes a one-pixel black image to \<open>A\<close>, since it takes the blocks
  per row from the width of the image.
\<close>

theorem decode_ignores_blocksPerRow:
  "BlocksPerRow (default_cfg \<lparr> BlockSize := 1, BlocksPerRow := 0 \<rparr>) \<le> 0 \<and>
   pngToDNAGrayscale (Some (grey_image 0)) [] (default_cfg \<lparr> BlockSize := 1, BlocksPerRow := 0 \<rparr>)
     = Some (''A'', None)"
  by code_simp

text \<open>
  Claim C3, amended. \<open>dnaToPNGGrayscale\<close> fails with an invalid-configuration error, before
  it writes anything, whenever the block size, the blocks per row or the rows per block is
  \<open>\<le> 0\<close>; \<open>pngToDNAGrayscale\<close> fails with that error, before it reads the image or writes
  anything, whenever the block size is \<open>\<le> 0\<close>.
\<close>

theorem invalid_configuration:
  "(BlockSize cfg \<le> 0 \<or> BlocksPerRow cfg \<le> 0 \<or> RowsPerBlock cfg \<le> 0 \<longrightarrow>
      (\<exists>msg. dnaToPNGGrayscale dnaSequence images cfg = (images, Some (InvalidConfiguration msg)))) \<and>
   (BlockSize cfg \<le> 0 \<longrightarrow>
      pngToDNAGrayscale reader writer cfg
        = Some (writer, Some (InvalidConfiguration ''block size must be positive'')))"
  by (simp add: dnaToPNGGrayscale_def pngToDNAGrayscale_def)

theorem invalid_configuration_witness:
  "RowsPerBlock (default_cfg \<lparr> RowsPerBlock := 0 \<rparr>) \<le> 0 \<and>
   (\<exists>msg. dnaToPNGGrayscale ''ATCG'' [] (default_cfg \<lparr> RowsPerBlock := 0 \<rparr>)
            = ([], Some (InvalidConfiguration msg))) \<and>
   BlockSize (default_cfg \<lparr> BlockSize := - 1 \<rparr>) \<le> 0 \<and>
   pngToDNAGrayscale (Some (grey_image 0)) [] (default_cfg \<lparr> BlockSize := - 1 \<rparr>)
     = Some ([], Some (InvalidConfiguration ''block size must be positive''))"
proof -
  have h1: "RowsPerBlock (default_cfg \<lparr> RowsPerBlock := 0 \<rparr>) \<le> 0" by simp
  have h2: "BlockSize (default_cfg \<lparr> BlockSize := - 1 \<rparr>) \<le> 0" by simp
  note a = invalid_configuration [of "default_cfg \<lparr> RowsPerBlock := 0 \<rparr>" "''ATCG''" "[]",
      THEN conjunct1, rule_format, OF disjI2, OF disjI2, OF h1]
  note b = invalid_configuration [of "default_cfg \<lparr> BlockSize := - 1 \<rparr>" _ _ "Some (grey_image 0)" "[]",
      THEN conjunct2, rule_format, OF h2]
  show ?thesis
    by (intro conjI) (rule h1 h2 a b)+
qed

text \<open>
  Claim C1 (round trip when the length is a multiple of the block group size) at the layout
  of 2 blocks per row and 2 rows per block: the encoder lays the symbols of a block group out
  row by row, the decoder reads them column by column, and \<open>ATCG\<close> comes back as \<open>ACTG\<close>.
\<close>

theorem roundtrip_2x2: "decode_encode ''ATCG'' cfg_1_2_2 = Some (''ACTG'', None)"
  by code_simp

text \<open>
  Claim C2 (the sequence followed by padding when the length is not a multiple) at the same
  layout: \<open>AT\<close> comes back as \<open>ANTN\<close>, not as \<open>ATNN\<close>.
\<close>

theorem padding_2x2: "decode_encode ''AT'' cfg_1_2_2 = Some (''ANTN'', None)"
  by code_simp

section \<open>The loops of the decoder as steps over the list of visited blocks\<close>

lemma steps_from_append:
  "steps_from step (ps @ qs) b =
     (case steps_from step ps b of Inl err \<Rightarrow> Inl err | Inr b' \<Rightarrow> steps_from step qs b')"
  by (induction ps arbitrary: b) (auto split: sum.splits)

lemma rows_loop_steps:
  "rows_loop step rowsPerBlock rowsOfBlocks blockRow col rowInBlock b =
     steps_from step (column_visits rowsPerBlock rowsOfBlocks blockRow col rowInBlock) b"
proof (induction step rowsPerBlock rowsOfBlocks blockRow col rowInBlock b rule: rows_loop.induct)
  case (1 step rowsPerBlock rowsOfBlocks blockRow col rowInBlock b)
  show ?case
  proof (cases "rowInBlock < rowsPerBlock \<and> blockRow + rowInBlock < rowsOfBlocks")
    case True
    then have u: "[rowInBlock..min (rowsPerBlock - 1) (rowsOfBlocks - blockRow - 1)] =
        rowInBlock # [rowInBlock + 1..min (rowsPerBlock - 1) (rowsOfBlocks - blockRow - 1)]"
      by (intro upto_rec1) simp
    from True show ?thesis
      by (subst rows_loop.simps)
         (auto simp: column_visits_def u "1.IH" [unfolded column_visits_def] split: sum.splits)
  next
    case False
    then have "[rowInBlock..min (rowsPerBlock - 1) (rowsOfBlocks - blockRow - 1)] = []"
      by (intro upto_empty) auto
    with False show ?thesis
      by (subst rows_loop.simps) (auto simp: column_visits_def)
  qed
qed

lemma cols_loop_steps:
  "cols_loop step rowsPerBlock rowsOfBlocks blocksPerRow blockRow col b =
     steps_from step (group_visits rowsPerBlock rowsOfBlocks blocksPerRow blockRow col) b"
proof (induction step rowsPerBlock rowsOfBlocks blocksPerRow blockRow col b rule: cols_loop.induct)
  case (1 step rowsPerBlock rowsOfBlocks blocksPerRow blockRow col b)
  show ?case
  proof (cases "col < blocksPerRow")
    case True
    then have u: "[col..blocksPerRow - 1] = col # [col + 1..blocksPerRow - 1]"
      by (intro upto_rec1) simp
    from True show ?thesis
      by (subst cols_loop.simps)
         (auto simp: group_visits_def u rows_loop_steps steps_from_append
            "1.IH" [unfolded group_visits_def rows_loop_steps] split: sum.splits)
  next
    case False
    then have "[col..blocksPerRow - 1] = []" by (intro upto_empty) auto
    with False show ?thesis
      by (subst cols_loop.simps) (auto simp: group_visits_def)
  qed
qed

lemma blockRows_loop_steps:
  assumes "0 < rowsPerBlock"
  shows "blockRows_loop step rowsPerBlock rowsOfBlocks blocksPerRow blockRow b =
     Some (steps_from step
       (concat (map (\<lambda>blockRow. group_visits rowsPerBlock rowsOfBlocks blocksPerRow blockRow 0)
          (block_rows rowsPerBlock rowsOfBlocks blockRow))) b)"
  using assms
proof (induction rowsPerBlock rowsOfBlocks blockRow arbitrary: b rule: block_rows.induct)
  case (1 rowsPerBlock rowsOfBlocks blockRow)
  show ?case
  proof (cases "blockRow < rowsOfBlocks")
    case True
    with "1.prems" have br: "block_rows rowsPerBlock rowsOfBlocks blockRow =
        blockRow # block_rows rowsPerBlock rowsOfBlocks (blockRow + rowsPerBlock)"
      by (subst block_rows.simps) simp
    from True "1.prems" show ?thesis
      by (subst blockRows_loop.simps)
         (auto simp: br cols_loop_steps steps_from_append "1.IH" split: sum.splits)
  next
    case False
    then have "block_rows rowsPerBlock rowsOfBlocks blockRow = []"
      by (subst block_rows.simps) simp
    with False show ?thesis
      by (subst blockRows_loop.simps) simp
  qed
qed

lemma steps_from_first_error:
  "steps_from step ps b = Inl err \<Longrightarrow>
     \<exists>ps1 col absRow ps2 b'. ps = ps1 @ (col, absRow) # ps2 \<and> steps_from step ps1 b = Inr b'
        \<and> step col absRow b' = Inl err"
proof (induction ps arbitrary: b)
  case Nil
  then show ?case by simp
next
  case (Cons p ps)
  obtain col absRow where p: "p = (col, absRow)" by (cases p)
  show ?case
  proof (cases "step col absRow b")
    case (Inl e)
    with Cons.prems p have "e = err" by simp
    with Inl p have "p # ps = [] @ (col, absRow) # ps \<and> steps_from step [] b = Inr b
        \<and> step col absRow b = Inl err" by simp
    then show ?thesis by blast
  next
    case (Inr b1)
    with Cons.prems p have "steps_from step ps b1 = Inl err" by simp
    from Cons.IH [OF this] obtain ps1 c r ps2 b' where
      "ps = ps1 @ (c, r) # ps2" "steps_from step ps1 b1 = Inr b'" "step c r b' = Inl err"
      by blast
    with Inr p have "p # ps = (p # ps1) @ (c, r) # ps2 \<and> steps_from step (p # ps1) b = Inr b'
        \<and> step c r b' = Inl err" by simp
    then show ?thesis by blast
  qed
qed

lemma pngToDNAGrayscale_loops:
  assumes "0 < BlockSize cfg" "fst (Bounds_Max img) smod BlockSize cfg = 0"
    "snd (Bounds_Max img) smod BlockSize cfg = 0" "PaddingChar cfg = c # cs"
  shows "pngToDNAGrayscale (Some img) writer cfg =
     (case blockRows_loop (decode_block img cfg (rune_of_byte (byte_of c))) (RowsPerBlock cfg)
             (snd (Bounds_Max img) sdiv BlockSize cfg) (fst (Bounds_Max img) sdiv BlockSize cfg) 0 [] of
        None \<Rightarrow> None
      | Some (Inl err) \<Rightarrow> Some (writer, Some err)
      | Some (Inr dna) \<Rightarrow> Some (writer @ dna, None))"
  using assms by (simp add: pngToDNAGrayscale_def Let_def)

lemma pngToDNAGrayscale_steps:
  assumes "0 < BlockSize cfg" "fst (Bounds_Max img) smod BlockSize cfg = 0"
    "snd (Bounds_Max img) smod BlockSize cfg = 0" "PaddingChar cfg = c # cs"
    and "0 < RowsPerBlock cfg"
  shows "pngToDNAGrayscale (Some img) writer cfg =
     (case steps_from (decode_block img cfg (rune_of_byte (byte_of c)))
             (visit_order (RowsPerBlock cfg) (snd (Bounds_Max img) sdiv BlockSize cfg)
                (fst (Bounds_Max img) sdiv BlockSize cfg)) [] of
        Inl err \<Rightarrow> Some (writer, Some err)
      | Inr dna \<Rightarrow> Some (writer @ dna, None))"
  by (simp add: pngToDNAGrayscale_loops [OF assms(1-4)] blockRows_loop_steps [OF assms(5)]
      visit_order_def)

lemma decode_returns:
  assumes "0 < RowsPerBlock cfg"
  shows "\<exists>res. pngToDNAGrayscale reader writer cfg = Some res"
proof (cases "BlockSize cfg \<le> 0")
  case True
  then show ?thesis by (simp add: pngToDNAGrayscale_def)
next
  case False
  then have bs: "0 < BlockSize cfg" by simp
  show ?thesis
  proof (cases reader)
    case None
    with False show ?thesis by (simp add: pngToDNAGrayscale_def)
  next
    case (Some img)
    show ?thesis
    proof (cases "fst (Bounds_Max img) smod BlockSize cfg = 0
        \<and> snd (Bounds_Max img) smod BlockSize cfg = 0")
      case dims: True
      show ?thesis
      proof (cases "PaddingChar cfg")
        case Nil
        with False Some dims show ?thesis by (simp add: pngToDNAGrayscale_def)
      next
        case (Cons c cs)
        from dims have d: "fst (Bounds_Max img) smod BlockSize cfg = 0"
          "snd (Bounds_Max img) smod BlockSize cfg = 0" by simp_all
        show ?thesis
          unfolding Some pngToDNAGrayscale_steps [OF bs d Cons assms]
          by (simp split: sum.split)
      qed
    next
      case False
      with bs Some show ?thesis by (auto simp: pngToDNAGrayscale_def Let_def)
    qed
  qed
qed


section \<open>The pixels that the encoder paints\<close>

lemma Rect_Max_Set [simp]: "Rect_Max (Set_RGBA img x y c) = Rect_Max img"
  by (simp add: Set_RGBA_def)

lemma in_Rect_cong: "Rect_Max img' = Rect_Max img \<Longrightarrow> in_Rect img' = in_Rect img"
  by (simp add: in_Rect_def fun_eq_iff)

lemma Pix_Set:
  "Pix (Set_RGBA img x y c) (u, v) = (if u = x \<and> v = y \<and> in_Rect img u v then c else Pix img (u, v))"
  by (auto simp: Set_RGBA_def)

lemma Rect_Max_fill_column [simp]: "Rect_Max (fill_column dys xdx y c img) = Rect_Max img"
  by (induction dys arbitrary: img) simp_all

lemma Pix_fill_column:
  "Pix (fill_column dys xdx y c img) (u, v) =
     (if u = xdx \<and> v - y \<in> set dys \<and> in_Rect img u v then c else Pix img (u, v))"
proof (induction dys arbitrary: img)
  case Nil
  then show ?case by simp
next
  case (Cons dy dys)
  have r: "in_Rect (Set_RGBA img xdx (y + dy) c) = in_Rect img"
    by (rule in_Rect_cong) simp
  show ?case
    by (auto simp: Cons.IH r Pix_Set)
qed

lemma Rect_Max_fill_block [simp]: "Rect_Max (fill_block dxs blockSize x y c img) = Rect_Max img"
  by (induction dxs arbitrary: img) simp_all

lemma Pix_fill_block:
  "Pix (fill_block dxs blockSize x y c img) (u, v) =
     (if u - x \<in> set dxs \<and> v - y \<in> {0..blockSize - 1} \<and> in_Rect img u v then c
      else Pix img (u, v))"
proof (induction dxs arbitrary: img)
  case Nil
  then show ?case by simp
next
  case (Cons dx dxs)
  have r: "in_Rect (fill_column [0..blockSize - 1] (x + dx) y c img) = in_Rect img"
    by (rule in_Rect_cong) simp
  show ?case
    by (auto simp: Cons.IH r Pix_fill_column)
qed

lemma Rect_Max_encode_base [simp]: "Rect_Max (encode_base cfg block i base img) = Rect_Max img"
  by (simp add: encode_base_def Let_def)

lemma Pix_encode_base:
  "Pix (encode_base cfg block i base img) (u, v) =
     (if (u, v) \<in> block_square cfg block i \<and> in_Rect img u v then gray_of base
      else Pix img (u, v))"
  by (auto simp: encode_base_def Let_def Pix_fill_block block_square_def gray_of_def)

lemma Rect_Max_encode_bases [simp]: "Rect_Max (encode_bases cfg block ps img) = Rect_Max img"
  by (induction ps arbitrary: img) auto

lemma in_Rect_encode_base [simp]: "in_Rect (encode_base cfg block i base img) = in_Rect img"
  by (rule in_Rect_cong) simp

lemma in_Rect_encode_bases [simp]: "in_Rect (encode_bases cfg block ps img) = in_Rect img"
  by (rule in_Rect_cong) simp

lemma encode_bases_frame:
  "\<forall>(j, r) \<in> set ps. (u, v) \<notin> block_square cfg block j \<Longrightarrow>
     Pix (encode_bases cfg block ps img) (u, v) = Pix img (u, v)"
  by (induction ps arbitrary: img) (auto simp: Pix_encode_base)

lemma div_eq_iff_between:
  "0 < b \<Longrightarrow> (u div b = c) = (c * b \<le> u \<and> u < c * b + b)" for u b c :: int
proof
  assume b: "0 < b" and "u div b = c"
  then have "c * b = u - u mod b" by (simp add: algebra_simps minus_mod_eq_mult_div)
  with b show "c * b \<le> u \<and> u < c * b + b"
    using pos_mod_bound [of b u] pos_mod_sign [of b u] by linarith
next
  assume b: "0 < b" and "c * b \<le> u \<and> u < c * b + b"
  then have "0 \<le> u - c * b" "u - c * b < b" by simp_all
  then have "(u - c * b) div b = 0" by (simp add: div_pos_pos_trivial)
  moreover have "(u - c * b) div b = u div b - c"
  proof -
    have "u div b = (c * b + (u - c * b)) div b" by simp
    also have "\<dots> = c + (u - c * b) div b" using b by (simp only: div_mult_self3)
    finally show ?thesis by simp
  qed
  ultimately show "u div b = c" by simp
qed

lemma int_div_less: "0 < c \<Longrightarrow> i < c * r \<Longrightarrow> i div c < r" for i c r :: int
proof (rule ccontr)
  assume c: "0 < c" and i: "i < c * r" and "\<not> i div c < r"
  then have "c * r \<le> c * (i div c)" by (simp add: mult_left_mono)
  also have "\<dots> \<le> i"
    using pos_mod_sign [OF c, of i] mult_div_mod_eq [of c i] by linarith
  finally show False using i by simp
qed

lemma block_square_iff:
  assumes "valid_layout cfg"
  shows "(u, v) \<in> block_square cfg block i \<longleftrightarrow>
     u div BlockSize cfg = int i mod BlocksPerRow cfg \<and>
     v div BlockSize cfg = int i div BlocksPerRow cfg + block * RowsPerBlock cfg"
  using assms
  by (auto simp: block_square_def valid_layout_def Let_def sdiv_nonneg smod_nonneg
      div_eq_iff_between)

lemma block_square_inj:
  assumes v: "valid_layout cfg"
    and a: "(u, v) \<in> block_square cfg b i" and a': "(u, v) \<in> block_square cfg b' i'"
    and lt: "int i < BlocksPerRow cfg * RowsPerBlock cfg" "int i' < BlocksPerRow cfg * RowsPerBlock cfg"
  shows "b = b' \<and> i = i'"
proof -
  let ?c = "BlocksPerRow cfg" and ?r = "RowsPerBlock cfg"
  from v have pos: "0 < ?c" "0 < ?r" by (simp_all add: valid_layout_def)
  from a a' have m: "int i mod ?c = int i' mod ?c"
    and d: "int i div ?c + b * ?r = int i' div ?c + b' * ?r"
    by (simp_all add: block_square_iff [OF v])
  have q: "0 \<le> int i div ?c" "int i div ?c < ?r" "0 \<le> int i' div ?c" "int i' div ?c < ?r"
    using pos lt by (simp_all add: pos_imp_zdiv_nonneg_iff int_div_less)
  have "(int i div ?c + b * ?r) div ?r = b" "(int i' div ?c + b' * ?r) div ?r = b'"
    using q pos by (simp_all add: div_pos_pos_trivial)
  with d have b: "b = b'" by simp
  with d have "int i div ?c = int i' div ?c" by simp
  with m have "int i = int i'"
    by (metis div_mult_mod_eq)
  with b show ?thesis by simp
qed

lemma encode_bases_paint:
  assumes v: "valid_layout cfg"
    and "distinct (map fst ps)" "(i, r) \<in> set ps"
    and "\<forall>(j, r') \<in> set ps. int j < BlocksPerRow cfg * RowsPerBlock cfg"
    and "(u, v) \<in> block_square cfg block i" "in_Rect img u v"
  shows "Pix (encode_bases cfg block ps img) (u, v) = gray_of r"
  using assms(2-)
proof (induction ps arbitrary: img)
  case Nil
  then show ?case by simp
next
  case (Cons p ps)
  obtain j r' where p: "p = (j, r')" by (cases p)
  show ?case
  proof (cases "(i, r) = p")
    case True
    have "\<forall>(k, r'') \<in> set ps. (u, v) \<notin> block_square cfg block k"
    proof (clarify)
      fix k r'' assume k: "(k, r'') \<in> set ps" and sq: "(u, v) \<in> block_square cfg block k"
      from Cons.prems(3) k True have "int k < BlocksPerRow cfg * RowsPerBlock cfg"
        "int i < BlocksPerRow cfg * RowsPerBlock cfg" by auto
      with block_square_inj [OF v sq Cons.prems(4)] have "k = i" by simp
      with k Cons.prems(1) True show False by (auto simp: image_iff)
    qed
    from encode_bases_frame [OF this] True p Cons.prems(4,5) show ?thesis
      by (simp add: Pix_encode_base)
  next
    case False
    with Cons.prems p have "(i, r) \<in> set ps" by auto
    with Cons.prems p show ?thesis
      by (simp add: Cons.IH)
  qed
qed

lemma range_from_bounds:
  "(j, r) \<in> set (range_from i k s) \<Longrightarrow> i + k \<le> j \<and> j < i + length s"
proof (induction i k s rule: range_from.induct)
  case (1 i k)
  then show ?case by simp
next
  case (2 i k c cs)
  then show ?case by auto
next
  case (3 i c cs)
  show ?case
  proof (cases "byte_of c < 0x80")
    case True
    with 3 show ?thesis by auto
  next
    case False
    obtain r' w where d: "decoderune (map byte_of (c # cs)) = (r', w)"
      by (cases "decoderune (map byte_of (c # cs))")
    with False "3.prems" have "(j, r) = (i, r') \<or> (j, r) \<in> set (range_from (Suc i) (w - 1) cs)"
      by (simp del: list.map)
    with "3.IH"(2) [OF False d [symmetric] refl] show ?thesis by auto
  qed
qed

lemma range_from_distinct: "distinct (map fst (range_from i k s))"
proof (induction i k s rule: range_from.induct)
  case (1 i k)
  then show ?case by simp
next
  case (2 i k c cs)
  then show ?case by simp
next
  case (3 i c cs)
  show ?case
  proof (cases "byte_of c < 0x80")
    case True
    with 3 show ?thesis by (auto dest: range_from_bounds)
  next
    case False
    obtain r' w where d: "decoderune (map byte_of (c # cs)) = (r', w)"
      by (cases "decoderune (map byte_of (c # cs))")
    have "i \<notin> fst ` set (range_from (Suc i) (w - 1) cs)"
      using range_from_bounds [of i _ "Suc i" "w - 1" cs] by force
    moreover from False d have "range_from i 0 (c # cs) = (i, r') # range_from (Suc i) (w - 1) cs"
      by (simp del: list.map)
    ultimately show ?thesis
      using "3.IH"(2) [OF False d [symmetric] refl] by simp
  qed
qed

lemma range_string_bounds: "(j, r) \<in> set (range_string s) \<Longrightarrow> j < length s"
  using range_from_bounds [of j r 0 0 s] by (simp add: range_string_def)

lemma range_string_distinct: "distinct (map fst (range_string s))"
  by (simp add: range_string_def range_from_distinct)

lemma range_from_ascii:
  "\<forall>c \<in> set s. byte_of c < 0x80 \<Longrightarrow>
     range_from i 0 s = map (\<lambda>j. (i + j, rune_of_byte (byte_of (s ! j)))) [0..<length s]"
proof (induction s arbitrary: i)
  case Nil
  then show ?case by simp
next
  case (Cons c cs)
  have "[0..<length (c # cs)] = 0 # map Suc [0..<length cs]"
    by (simp add: upt_conv_Cons map_Suc_upt del: upt_Suc)
  with Cons show ?case by (simp add: comp_def del: upt_Suc)
qed

lemma range_string_ascii:
  assumes "\<forall>c \<in> set s. byte_of c < 0x80"
  shows "(j, r) \<in> set (range_string s) \<longleftrightarrow> j < length s \<and> r = rune_of_byte (byte_of (s ! j))"
  by (auto simp: range_string_def range_from_ascii [OF assms])

lemma encode_block_slice:
  "encode_block dnaSequence cfg basesPerBlock block img =
     encode_bases cfg block (range_string (block_slice dnaSequence basesPerBlock block)) img"
  by (simp add: encode_block_def block_slice_def Let_def)

lemma Rect_Max_encode_blocks [simp]:
  "Rect_Max (encode_blocks dnaSequence cfg basesPerBlock blocks img) = Rect_Max img"
  by (induction blocks arbitrary: img) (simp_all add: encode_block_slice)

lemma length_block_slice_le:
  "0 < basesPerBlock \<Longrightarrow> int (length (block_slice dnaSequence basesPerBlock block)) \<le> basesPerBlock"
  by (auto simp: block_slice_def)

lemma block_slice_index:
  assumes "0 \<le> block" "0 < basesPerBlock" "i < length (block_slice dnaSequence basesPerBlock block)"
  shows "int (nat (block * basesPerBlock) + i) < int (length dnaSequence)"
    and "block_slice dnaSequence basesPerBlock block ! i = dnaSequence ! (nat (block * basesPerBlock) + i)"
  using assms by (auto simp: block_slice_def split: if_splits)

lemma length_block_slice:
  assumes "0 \<le> block" "0 < basesPerBlock" "block * basesPerBlock \<le> int (length dnaSequence)"
  shows "int (length (block_slice dnaSequence basesPerBlock block))
           = min basesPerBlock (int (length dnaSequence) - block * basesPerBlock)"
proof -
  let ?s = "block * basesPerBlock" and ?n = "int (length dnaSequence)"
  from assms have nn: "0 \<le> ?s" by simp
  have d: "int (length dnaSequence - nat ?s) = ?n - ?s"
    using assms(3) nn by (simp add: of_nat_diff nat_le_iff)
  show ?thesis
  proof (cases "?s + basesPerBlock > ?n")
    case True
    then have "length (block_slice dnaSequence basesPerBlock block) = length dnaSequence - nat ?s"
      by (simp add: block_slice_def nat_diff_distrib' nn)
    with True d show ?thesis by simp
  next
    case False
    with d have "nat basesPerBlock \<le> length dnaSequence - nat ?s"
      by linarith
    with False have "length (block_slice dnaSequence basesPerBlock block) = nat basesPerBlock"
      by (simp add: block_slice_def)
    with False assms(2) show ?thesis by simp
  qed
qed

lemma encode_blocks_frame:
  "\<forall>b \<in> set blocks. \<forall>(j, r) \<in> set (range_string (block_slice dnaSequence basesPerBlock b)).
      (u, v) \<notin> block_square cfg b j \<Longrightarrow>
   Pix (encode_blocks dnaSequence cfg basesPerBlock blocks img) (u, v) = Pix img (u, v)"
  by (induction blocks arbitrary: img) (simp_all add: encode_block_slice encode_bases_frame)

lemma slice_index_less:
  assumes "0 < basesPerBlock" "(j, r) \<in> set (range_string (block_slice dnaSequence basesPerBlock b))"
  shows "int j < basesPerBlock"
  using range_string_bounds [OF assms(2)] length_block_slice_le [OF assms(1), of dnaSequence b]
  by linarith

lemma encode_blocks_paint:
  assumes v: "valid_layout cfg" and bpb: "basesPerBlock = BlocksPerRow cfg * RowsPerBlock cfg"
    and "distinct blocks" "b \<in> set blocks"
    and "(i, r) \<in> set (range_string (block_slice dnaSequence basesPerBlock b))"
    and "(u, v) \<in> block_square cfg b i" "in_Rect img u v"
  shows "Pix (encode_blocks dnaSequence cfg basesPerBlock blocks img) (u, v) = gray_of r"
  using assms(3-)
proof (induction blocks arbitrary: img)
  case Nil
  then show ?case by simp
next
  case (Cons b' blocks)
  from v bpb have pos: "0 < basesPerBlock" by (simp add: valid_layout_def)
  show ?case
  proof (cases "b' = b")
    case True
    have idx: "\<forall>(j, r') \<in> set (range_string (block_slice dnaSequence basesPerBlock b)).
        int j < BlocksPerRow cfg * RowsPerBlock cfg"
      using slice_index_less [OF pos] bpb by auto
    have here: "Pix (encode_block dnaSequence cfg basesPerBlock b img) (u, v) = gray_of r"
      unfolding encode_block_slice
      by (rule encode_bases_paint [OF v range_string_distinct Cons.prems(3) idx Cons.prems(4,5)])
    have "\<forall>b'' \<in> set blocks. \<forall>(j, r') \<in> set (range_string (block_slice dnaSequence basesPerBlock b'')).
        (u, v) \<notin> block_square cfg b'' j"
    proof (clarify)
      fix b'' j r'
      assume b'': "b'' \<in> set blocks"
        and j: "(j, r') \<in> set (range_string (block_slice dnaSequence basesPerBlock b''))"
        and sq: "(u, v) \<in> block_square cfg b'' j"
      have "int j < BlocksPerRow cfg * RowsPerBlock cfg" "int i < BlocksPerRow cfg * RowsPerBlock cfg"
        using slice_index_less [OF pos j] slice_index_less [OF pos Cons.prems(3)] bpb by simp_all
      with block_square_inj [OF v sq Cons.prems(4)] have "b'' = b" by simp
      with b'' Cons.prems(1) True show False by simp
    qed
    from encode_blocks_frame [OF this] here True show ?thesis by simp
  next
    case False
    have "in_Rect (encode_block dnaSequence cfg basesPerBlock b' img) u v"
      using Cons.prems(5) by (simp add: encode_block_slice)
    with False Cons.prems show ?thesis
      by (simp add: Cons.IH)
  qed
qed

lemma fill_transparent_row_blank:
  "Pix img = (\<lambda>p. Transparent) \<Longrightarrow> fill_transparent_row xs y img = img"
proof (induction xs arbitrary: img)
  case Nil
  then show ?case by simp
next
  case (Cons x xs)
  from Cons.prems have "Set_RGBA img x y Transparent = img"
    by (simp add: Set_RGBA_def fun_upd_idem)
  with Cons show ?case by simp
qed

lemma fill_transparent_blank:
  "Pix img = (\<lambda>p. Transparent) \<Longrightarrow> fill_transparent ys imgWidth img = img"
  by (induction ys arbitrary: img) (simp_all add: fill_transparent_row_blank)

lemma fill_transparent_NewRGBA: "fill_transparent ys imgWidth (NewRGBA w h) = NewRGBA w h"
  by (rule fill_transparent_blank) (simp add: NewRGBA_def Transparent_def)

lemma num_blocks_sdiv:
  assumes "valid_layout cfg"
  shows "(int (length dnaSequence) + BlocksPerRow cfg * RowsPerBlock cfg - 1)
            sdiv (BlocksPerRow cfg * RowsPerBlock cfg) = num_blocks dnaSequence cfg"
proof -
  from assms have "0 < BlocksPerRow cfg * RowsPerBlock cfg" by (simp add: valid_layout_def)
  then show ?thesis by (simp add: num_blocks_def sdiv_nonneg)
qed

lemma num_blocks_pos:
  assumes "valid_layout cfg" "dnaSequence \<noteq> []"
  shows "0 < num_blocks dnaSequence cfg"
proof -
  define B where "B = BlocksPerRow cfg * RowsPerBlock cfg"
  from assms(1) have pos: "0 < B" by (simp add: valid_layout_def B_def)
  from assms(2) have "B \<le> int (length dnaSequence) + B - 1"
    by (cases dnaSequence) simp_all
  with pos have "B div B \<le> (int (length dnaSequence) + B - 1) div B"
    by (intro zdiv_mono1) simp_all
  with pos have "1 \<le> (int (length dnaSequence) + B - 1) div B" by simp
  then show ?thesis by (simp add: num_blocks_def B_def)
qed

lemma wrap64_id: "0 \<le> x \<Longrightarrow> x < 2 ^ 63 \<Longrightarrow> wrap64 x = x"
  by (simp add: wrap64_def mod_pos_pos_trivial)

lemma num_blocks_le:
  assumes "valid_layout cfg"
  shows "0 \<le> num_blocks dnaSequence cfg"
    and "num_blocks dnaSequence cfg
           \<le> int (length dnaSequence) + BlocksPerRow cfg * RowsPerBlock cfg - 1"
proof -
  define B where "B = BlocksPerRow cfg * RowsPerBlock cfg"
  from assms have pos: "0 < B" by (simp add: valid_layout_def B_def)
  then have n: "0 \<le> int (length dnaSequence) + B - 1" by simp
  with pos show "0 \<le> num_blocks dnaSequence cfg"
    by (simp add: num_blocks_def B_def [symmetric] pos_imp_zdiv_nonneg_iff)
  from pos n have "(int (length dnaSequence) + B - 1) div B \<le> int (length dnaSequence) + B - 1"
    using zdiv_mono2 [of "int (length dnaSequence) + B - 1" 1 B] by simp
  then show "num_blocks dnaSequence cfg
           \<le> int (length dnaSequence) + BlocksPerRow cfg * RowsPerBlock cfg - 1"
    by (simp add: num_blocks_def B_def)
qed

lemma sizes_in_range:
  assumes v: "valid_layout cfg" and m: "machine_range dnaSequence cfg"
  shows "wrap64 (BlocksPerRow cfg * RowsPerBlock cfg) = BlocksPerRow cfg * RowsPerBlock cfg"
    and "wrap64 (wrap64 (int (length dnaSequence) + BlocksPerRow cfg * RowsPerBlock cfg - 1)
           sdiv (BlocksPerRow cfg * RowsPerBlock cfg)) = num_blocks dnaSequence cfg"
    and "wrap64 (BlocksPerRow cfg * BlockSize cfg) = BlocksPerRow cfg * BlockSize cfg"
    and "wrap64 (num_blocks dnaSequence cfg * RowsPerBlock cfg * BlockSize cfg)
           = num_blocks dnaSequence cfg * RowsPerBlock cfg * BlockSize cfg"
proof -
  define B where "B = BlocksPerRow cfg * RowsPerBlock cfg"
  define n where "n = int (length dnaSequence)"
  from v have pos: "0 < BlockSize cfg" "0 < BlocksPerRow cfg" "0 < RowsPerBlock cfg" "0 < B"
    by (simp_all add: valid_layout_def B_def)
  from m have r: "n + B < 2 ^ 63" "BlocksPerRow cfg * BlockSize cfg < 2 ^ 32"
    "num_blocks dnaSequence cfg * RowsPerBlock cfg * BlockSize cfg < 2 ^ 32"
    by (simp_all add: machine_range_def B_def n_def)
  have n0: "0 \<le> n" by (simp add: n_def)
  from pos r n0 show "wrap64 (BlocksPerRow cfg * RowsPerBlock cfg) = BlocksPerRow cfg * RowsPerBlock cfg"
    unfolding B_def [symmetric] by (intro wrap64_id) simp_all
  from pos r n0 have d: "wrap64 (n + B - 1) = n + B - 1"
    by (intro wrap64_id) simp_all
  have "wrap64 (num_blocks dnaSequence cfg) = num_blocks dnaSequence cfg"
    using num_blocks_le [OF v, of dnaSequence] r(1)
    by (intro wrap64_id) (simp_all add: B_def n_def)
  then show "wrap64 (wrap64 (int (length dnaSequence) + BlocksPerRow cfg * RowsPerBlock cfg - 1)
           sdiv (BlocksPerRow cfg * RowsPerBlock cfg)) = num_blocks dnaSequence cfg"
    unfolding B_def [symmetric] n_def [symmetric] d
    using num_blocks_sdiv [OF v, of dnaSequence] by (simp add: B_def n_def)
  from pos r show "wrap64 (BlocksPerRow cfg * BlockSize cfg) = BlocksPerRow cfg * BlockSize cfg"
    by (intro wrap64_id) simp_all
  have "0 \<le> num_blocks dnaSequence cfg * RowsPerBlock cfg * BlockSize cfg"
    using num_blocks_le(1) [OF v, of dnaSequence] pos by simp
  with r show "wrap64 (num_blocks dnaSequence cfg * RowsPerBlock cfg * BlockSize cfg)
           = num_blocks dnaSequence cfg * RowsPerBlock cfg * BlockSize cfg"
    by (intro wrap64_id) simp_all
qed

lemma dnaToPNGGrayscale_valid:
  assumes v: "valid_layout cfg" and m: "machine_range dnaSequence cfg" and ne: "dnaSequence \<noteq> []"
  shows "dnaToPNGGrayscale dnaSequence images cfg = (images @ [encode_image dnaSequence cfg], None)"
proof -
  from v have pos: "0 < BlockSize cfg" "0 < BlocksPerRow cfg" "0 < RowsPerBlock cfg"
    by (simp_all add: valid_layout_def)
  have B: "\<not> BlocksPerRow cfg * RowsPerBlock cfg = 0"
    using pos by simp
  have W: "\<not> BlocksPerRow cfg * BlockSize cfg \<le> 0"
    using pos by (simp add: not_le mult_pos_pos)
  have H: "\<not> num_blocks dnaSequence cfg * RowsPerBlock cfg * BlockSize cfg \<le> 0"
    using pos num_blocks_pos [OF v ne] by (simp add: not_le mult_pos_pos)
  from m have big: "\<not> 2 ^ 63 \<le> 4 * (BlocksPerRow cfg * BlockSize cfg)
       * (num_blocks dnaSequence cfg * RowsPerBlock cfg * BlockSize cfg)"
    "\<not> 2 ^ 32 \<le> BlocksPerRow cfg * BlockSize cfg"
    "\<not> 2 ^ 32 \<le> num_blocks dnaSequence cfg * RowsPerBlock cfg * BlockSize cfg"
    by (simp_all add: machine_range_def)
  have c: "\<not> BlockSize cfg \<le> 0" "\<not> BlocksPerRow cfg \<le> 0" "\<not> RowsPerBlock cfg \<le> 0"
    using pos by simp_all
  show ?thesis
    by (simp only: dnaToPNGGrayscale_def Let_def sizes_in_range [OF v m] B W H big c if_False
        simp_thms fill_transparent_NewRGBA encode_image_def if_cancel)
qed

lemma Rect_Max_encode_image:
  "Rect_Max (encode_image dnaSequence cfg) =
     (BlocksPerRow cfg * BlockSize cfg, num_blocks dnaSequence cfg * RowsPerBlock cfg * BlockSize cfg)"
  by (simp add: encode_image_def NewRGBA_def)

lemma div_range:
  fixes u b m :: int
  assumes "0 < b" "0 \<le> u div b" "u div b < m"
  shows "0 \<le> u \<and> u < m * b"
proof -
  from assms(1,2) have "0 \<le> u" by (simp add: pos_imp_zdiv_nonneg_iff)
  moreover have "u < (u div b) * b + b"
    using div_eq_iff_between [OF assms(1), of u "u div b"] by simp
  moreover from assms have "(u div b + 1) * b \<le> m * b"
    by (intro mult_right_mono) simp_all
  ultimately show ?thesis by (simp add: algebra_simps)
qed

lemma block_square_in_Rect:
  assumes v: "valid_layout cfg" and b: "0 \<le> block" "block < num_blocks dnaSequence cfg"
    and i: "int i < BlocksPerRow cfg * RowsPerBlock cfg"
    and sq: "(u, v) \<in> block_square cfg block i"
  shows "in_Rect (encode_image dnaSequence cfg) u v"
proof -
  let ?c = "BlocksPerRow cfg" and ?r = "RowsPerBlock cfg" and ?s = "BlockSize cfg"
  let ?N = "num_blocks dnaSequence cfg"
  from v have pos: "0 < ?c" "0 < ?r" "0 < ?s" by (simp_all add: valid_layout_def)
  from sq have ud: "u div ?s = int i mod ?c" and vd: "v div ?s = int i div ?c + block * ?r"
    by (simp_all add: block_square_iff [OF v])
  have "0 \<le> u div ?s" "u div ?s < ?c" using pos ud by simp_all
  from div_range [OF pos(3) this] have u: "0 \<le> u" "u < ?c * ?s" by simp_all
  have q: "0 \<le> int i div ?c" "int i div ?c < ?r"
    using pos i by (simp_all add: pos_imp_zdiv_nonneg_iff int_div_less)
  have "block * ?r \<le> (?N - 1) * ?r" using b pos by (intro mult_right_mono) simp_all
  with q have "v div ?s < ?N * ?r" unfolding vd by (simp add: algebra_simps)
  moreover have "0 \<le> v div ?s" unfolding vd using q b pos by simp
  ultimately have "0 \<le> v \<and> v < ?N * ?r * ?s" by (intro div_range [OF pos(3)])
  with u show ?thesis
    by (simp add: in_Rect_def Rect_Max_encode_image)
qed

lemma position_parts:
  assumes "0 < basesPerBlock"
  shows "0 \<le> int p div basesPerBlock"
    and "int (nat (int p mod basesPerBlock)) = int p mod basesPerBlock"
    and "int (nat (int p mod basesPerBlock)) < basesPerBlock"
    and "nat (int p div basesPerBlock * basesPerBlock) + nat (int p mod basesPerBlock) = p"
proof -
  show a: "0 \<le> int p div basesPerBlock" using assms by (simp add: pos_imp_zdiv_nonneg_iff)
  show b: "int (nat (int p mod basesPerBlock)) = int p mod basesPerBlock" using assms by simp
  show "int (nat (int p mod basesPerBlock)) < basesPerBlock" using assms by simp
  have "int (nat (int p div basesPerBlock * basesPerBlock) + nat (int p mod basesPerBlock)) = int p"
    using a assms b by simp
  then show "nat (int p div basesPerBlock * basesPerBlock) + nat (int p mod basesPerBlock) = p"
    by (simp only: of_nat_eq_iff)
qed

lemma num_blocks_bounds:
  assumes "valid_layout cfg"
  shows "int (length dnaSequence) \<le> num_blocks dnaSequence cfg * (BlocksPerRow cfg * RowsPerBlock cfg)"
    and "block < num_blocks dnaSequence cfg \<Longrightarrow>
           block * (BlocksPerRow cfg * RowsPerBlock cfg) < int (length dnaSequence)"
proof -
  let ?B = "BlocksPerRow cfg * RowsPerBlock cfg" and ?n = "int (length dnaSequence)"
  from assms have pos: "0 < ?B" by (simp add: valid_layout_def)
  have m: "(?n + ?B - 1) mod ?B < ?B" "0 \<le> (?n + ?B - 1) mod ?B"
    using pos by simp_all
  have e: "num_blocks dnaSequence cfg * ?B = (?n + ?B - 1) - (?n + ?B - 1) mod ?B"
    unfolding num_blocks_def by (simp add: minus_mod_eq_div_mult)
  from m e show "?n \<le> num_blocks dnaSequence cfg * ?B" by linarith
  assume "block < num_blocks dnaSequence cfg"
  then have "block * ?B \<le> (num_blocks dnaSequence cfg - 1) * ?B"
    using pos by (intro mult_right_mono) simp_all
  also have "\<dots> = num_blocks dnaSequence cfg * ?B - ?B" by (simp add: algebra_simps)
  also have "\<dots> < ?n" using m e by linarith
  finally show "block * ?B < ?n" .
qed

lemma upto_mem: "b \<in> set [0..N - 1] \<longleftrightarrow> 0 \<le> b \<and> b < N" for b N :: int
  by auto

lemma encode_image_position:
  assumes v: "valid_layout cfg" and ascii: "\<forall>c \<in> set dnaSequence. byte_of c < 0x80"
    and p: "p < length dnaSequence" and sq: "(u, v) \<in> position_square cfg p"
  shows "in_Rect (encode_image dnaSequence cfg) u v \<and>
         Pix (encode_image dnaSequence cfg) (u, v) = gray_of (rune_of_byte (byte_of (dnaSequence ! p)))"
proof -
  let ?B = "BlocksPerRow cfg * RowsPerBlock cfg" and ?N = "num_blocks dnaSequence cfg"
  let ?b = "int p div ?B" and ?i = "nat (int p mod ?B)"
  let ?slice = "block_slice dnaSequence ?B ?b"
  from v have pos: "0 < ?B" by (simp add: valid_layout_def)
  note pp = position_parts [OF pos, of p]
  from p num_blocks_bounds(1) [OF v, of dnaSequence] have "int p < ?B * ?N"
    by (simp add: mult.commute)
  then have bN: "?b < ?N" by (rule int_div_less [OF pos])
  have sq': "(u, v) \<in> block_square cfg ?b ?i" using sq by (simp add: position_square_def)
  have inR: "in_Rect (encode_image dnaSequence cfg) u v"
    by (rule block_square_in_Rect [OF v pp(1) bN pp(3) sq'])
  have start: "?b * ?B \<le> int (length dnaSequence)"
    using num_blocks_bounds(2) [OF v bN] by simp
  have "int p = ?b * ?B + int p mod ?B" by (rule div_mult_mod_eq [symmetric])
  with p have "int p mod ?B < int (length dnaSequence) - ?b * ?B" by linarith
  with pp(2,3) length_block_slice [OF pp(1) pos start]
  have "int ?i < int (length ?slice)" by linarith
  then have ilen: "?i < length ?slice" by (simp only: of_nat_less_iff)
  have el: "?slice ! ?i = dnaSequence ! p"
    using block_slice_index(2) [OF pp(1) pos ilen] pp(4) by simp
  have "set ?slice \<subseteq> set dnaSequence"
    unfolding block_slice_def by (meson set_drop_subset set_take_subset subset_trans)
  with ascii have "\<forall>c \<in> set ?slice. byte_of c < 0x80" by blast
  from range_string_ascii [OF this] ilen el
  have mem: "(?i, rune_of_byte (byte_of (dnaSequence ! p))) \<in> set (range_string ?slice)"
    by simp
  have inR0: "in_Rect (NewRGBA (BlocksPerRow cfg * BlockSize cfg)
      (?N * RowsPerBlock cfg * BlockSize cfg)) u v"
    using inR by (simp add: in_Rect_def Rect_Max_encode_image NewRGBA_def)
  have "Pix (encode_image dnaSequence cfg) (u, v) = gray_of (rune_of_byte (byte_of (dnaSequence ! p)))"
    unfolding encode_image_def
    by (rule encode_blocks_paint [OF v refl _ _ mem sq' inR0])
       (use pp(1) bN in \<open>simp_all add: upto_mem\<close>)
  with inR show ?thesis by simp
qed

lemma encode_image_trailing:
  assumes v: "valid_layout cfg"
    and p: "length dnaSequence \<le> p"
      "int p < num_blocks dnaSequence cfg * (BlocksPerRow cfg * RowsPerBlock cfg)"
    and sq: "(u, v) \<in> position_square cfg p"
  shows "in_Rect (encode_image dnaSequence cfg) u v \<and>
         Pix (encode_image dnaSequence cfg) (u, v) = Transparent"
proof -
  let ?B = "BlocksPerRow cfg * RowsPerBlock cfg" and ?N = "num_blocks dnaSequence cfg"
  let ?b = "int p div ?B" and ?i = "nat (int p mod ?B)"
  from v have pos: "0 < ?B" by (simp add: valid_layout_def)
  note pp = position_parts [OF pos, of p]
  from p(2) have "int p < ?B * ?N" by (simp add: mult.commute)
  then have bN: "?b < ?N" by (rule int_div_less [OF pos])
  have sq': "(u, v) \<in> block_square cfg ?b ?i" using sq by (simp add: position_square_def)
  have inR: "in_Rect (encode_image dnaSequence cfg) u v"
    by (rule block_square_in_Rect [OF v pp(1) bN pp(3) sq'])
  have "\<forall>b \<in> set [0..?N - 1]. \<forall>(j, r) \<in> set (range_string (block_slice dnaSequence ?B b)).
      (u, v) \<notin> block_square cfg b j"
  proof (clarify)
    fix b j r
    assume b: "b \<in> set [0..?N - 1]"
      and j: "(j, r) \<in> set (range_string (block_slice dnaSequence ?B b))"
      and s: "(u, v) \<in> block_square cfg b j"
    have jB: "int j < ?B" by (rule slice_index_less [OF pos j])
    from block_square_inj [OF v s sq' jB pp(3)] have eq: "b = ?b" "j = ?i" by simp_all
    from range_string_bounds [OF j] have "j < length (block_slice dnaSequence ?B b)" .
    from block_slice_index(1) [OF _ pos this] b
    have "int (nat (b * ?B) + j) < int (length dnaSequence)" by (simp add: upto_mem)
    with eq pp(4) have "int p < int (length dnaSequence)" by simp
    with p(1) show False by simp
  qed
  from encode_blocks_frame [OF this]
  have "Pix (encode_image dnaSequence cfg) (u, v) = Transparent"
    by (simp add: encode_image_def NewRGBA_def Transparent_def)
  with inR show ?thesis by simp
qed

section \<open>The symbol that the decoder emits for a block\<close>

lemma bases_ascii: "c \<in> dna_bases \<Longrightarrow> byte_of c < 0x80"
  unfolding dna_bases_def by (elim insertE emptyE; simp add: byte_of_def)

lemma decode_block_painted:
  assumes "c \<in> dna_bases"
    and "At_RGBA img (col * BlockSize cfg) (absRow * BlockSize cfg)
           = RGBA_of (gray_of (rune_of_byte (byte_of c)))"
  shows "decode_block img cfg paddingChar col absRow b = Inr (b @ [c])"
proof -
  have g: "RGBA_of (gray_of (rune_of_byte (byte_of CHR ''A''))) = (0, 0, 0, 65535)"
    "RGBA_of (gray_of (rune_of_byte (byte_of CHR ''T''))) = (16448, 16448, 16448, 65535)"
    "RGBA_of (gray_of (rune_of_byte (byte_of CHR ''C''))) = (32896, 32896, 32896, 65535)"
    "RGBA_of (gray_of (rune_of_byte (byte_of CHR ''G''))) = (49344, 49344, 49344, 65535)"
    by code_simp+
  have f: "findClosestDNABaseGrayscale dnaGrayscaleMap 0 20 = Inr (rune_lit CHR ''A'')"
    "findClosestDNABaseGrayscale dnaGrayscaleMap 64 20 = Inr (rune_lit CHR ''T'')"
    "findClosestDNABaseGrayscale dnaGrayscaleMap 128 20 = Inr (rune_lit CHR ''C'')"
    "findClosestDNABaseGrayscale dnaGrayscaleMap 192 20 = Inr (rune_lit CHR ''G'')"
    by (simp_all add: findClosestDNABaseGrayscale_def dnaGrayscaleMap_def Let_def)
  have e: "encodeRune (rune_lit CHR ''A'') = ''A''" "encodeRune (rune_lit CHR ''T'') = ''T''"
    "encodeRune (rune_lit CHR ''C'') = ''C''" "encodeRune (rune_lit CHR ''G'') = ''G''"
    by code_simp+
  from assms show ?thesis
    unfolding dna_bases_def
    by (elim insertE emptyE; hypsubst; simp add: g decode_block_def f e)
qed

lemma decode_block_transparent:
  assumes "alpha_of (At_RGBA img (col * BlockSize cfg) (absRow * BlockSize cfg)) < 0xFFFF div 2"
  shows "decode_block img cfg paddingChar col absRow dnaBuilder
           = Inr (dnaBuilder @ encodeRune paddingChar)"
  using assms
  by (cases "At_RGBA img (col * BlockSize cfg) (absRow * BlockSize cfg)")
     (simp add: decode_block_def alpha_of_def Let_def)

lemma findClosest_base:
  assumes "findClosestDNABaseGrayscale dnaGrayscaleMap intensity tolerance = Inr base"
  shows "\<exists>ch \<in> dna_bases. base = rune_lit ch"
proof -
  obtain md cb where c: "closest_loop dnaGrayscaleMap intensity 256 0 = (md, cb)"
    by (cases "closest_loop dnaGrayscaleMap intensity 256 0")
  from closest_loop_visit(4) [OF refl, of intensity 0] c have "md \<le> 255" by simp
  with closest_loop_snd [OF c] obtain m where "(cb, m) \<in> set dnaGrayscaleMap" by auto
  then have "cb = rune_lit CHR ''A'' \<or> cb = rune_lit CHR ''T'' \<or> cb = rune_lit CHR ''C''
      \<or> cb = rune_lit CHR ''G''"
    by (auto simp: map_entries)
  moreover from assms c have "base = cb"
    by (simp add: findClosestDNABaseGrayscale_def split: if_splits)
  ultimately show ?thesis by (auto simp: dna_bases_def)
qed

lemma decode_block_error:
  "decode_block img cfg paddingChar col absRow b = Inl err \<Longrightarrow>
     \<exists>e. err = DecodingPixel (col * BlockSize cfg) (absRow * BlockSize cfg) e"
  by (auto simp: decode_block_def Let_def split: prod.splits if_splits sum.splits)

text \<open>
  With a padding symbol of one byte, the step of a block either fails or appends exactly
  one character, which does not depend on the builder.
\<close>

lemma decode_block_cases:
  assumes "byte_of c < 0x80"
  shows "(\<exists>e. \<forall>b. decode_block img cfg (rune_of_byte (byte_of c)) col absRow b = Inl e) \<or>
         (\<exists>ch. \<forall>b. decode_block img cfg (rune_of_byte (byte_of c)) col absRow b = Inr (b @ [ch]))"
proof -
  obtain r g bl a where
    px: "At_RGBA img (col * BlockSize cfg) (absRow * BlockSize cfg) = (r, g, bl, a)"
    by (cases "At_RGBA img (col * BlockSize cfg) (absRow * BlockSize cfg)")
  show ?thesis
  proof (cases "a < 0xFFFF div 2")
    case True
    then have "alpha_of (At_RGBA img (col * BlockSize cfg) (absRow * BlockSize cfg)) < 0xFFFF div 2"
      by (simp add: px alpha_of_def)
    from decode_block_transparent [OF this] show ?thesis
      by (simp add: encodeRune_ascii [OF assms])
  next
    case False
    note blk = decode_block_opaque [OF px False]
    show ?thesis
    proof (cases "findClosestDNABaseGrayscale dnaGrayscaleMap (ucast ((r + g + bl) div 3 div 257)) 20")
      case (Inl e)
      then show ?thesis by (simp add: blk)
    next
      case (Inr base)
      from findClosest_base [OF this] obtain ch where "ch \<in> dna_bases" "base = rune_lit ch"
        by blast
      then show ?thesis by (simp add: blk Inr encodeRune_base)
    qed
  qed
qed

lemma steps_from_chars:
  assumes "\<forall>(col, absRow) \<in> set ps. (\<exists>e. \<forall>b. step col absRow b = Inl e)
              \<or> (\<exists>ch. \<forall>b. step col absRow b = Inr (b @ [ch]))"
    and "steps_from step ps b = Inr out"
  shows "length out = length b + length ps \<and> take (length b) out = b \<and>
         (\<forall>k < length ps. \<forall>b'. step (fst (ps ! k)) (snd (ps ! k)) b'
                                   = Inr (b' @ [out ! (length b + k)]))"
  using assms
proof (induction ps arbitrary: b)
  case Nil
  then show ?case by simp
next
  case (Cons p ps)
  obtain col absRow where p: "p = (col, absRow)" by (cases p)
  from Cons.prems(2) p obtain b1 where s1: "step col absRow b = Inr b1"
    and rest: "steps_from step ps b1 = Inr out"
    by (cases "step col absRow b") simp_all
  from Cons.prems(1) p s1 obtain ch where ch: "\<forall>b'. step col absRow b' = Inr (b' @ [ch])"
    by auto
  with s1 have b1: "b1 = b @ [ch]" by simp
  from Cons.prems(1) have "\<forall>(col, absRow) \<in> set ps. (\<exists>e. \<forall>b. step col absRow b = Inl e)
              \<or> (\<exists>ch. \<forall>b. step col absRow b = Inr (b @ [ch]))"
    by simp
  from Cons.IH [OF this rest]
  have len: "length out = length b1 + length ps" and tk: "take (length b1) out = b1"
    and nth: "\<forall>k < length ps. \<forall>b'. step (fst (ps ! k)) (snd (ps ! k)) b'
                                   = Inr (b' @ [out ! (length b1 + k)])"
    by simp_all
  from tk b1 have tk': "take (Suc (length b)) out = b @ [ch]" by simp
  then have "take (length b) (take (Suc (length b)) out) = b" by simp
  then have tb: "take (length b) out = b" by (simp add: min_def)
  from tk' len b1 have "out ! length b = ch"
    by (metis length_append_singleton lessI nth_append_length nth_take)
  with ch have k0: "\<forall>b'. step col absRow b' = Inr (b' @ [out ! (length b + 0)])" by simp
  have "\<forall>b'. step (fst ((p # ps) ! k)) (snd ((p # ps) ! k)) b'
                 = Inr (b' @ [out ! (length b + k)])" if "k < length (p # ps)" for k
  proof (cases k)
    case 0
    with k0 p show ?thesis by simp
  next
    case (Suc k')
    with that nth b1 show ?thesis by simp
  qed
  with len tb b1 show ?case by simp
qed


text \<open>The visit of the decoder reaches every block of the grid.\<close>

lemma block_rows_cover:
  assumes "0 < rowsPerBlock" "blockRow \<le> absRow" "absRow < rowsOfBlocks"
  shows "\<exists>br \<in> set (block_rows rowsPerBlock rowsOfBlocks blockRow).
            br \<le> absRow \<and> absRow < br + rowsPerBlock"
  using assms
proof (induction rowsPerBlock rowsOfBlocks blockRow rule: block_rows.induct)
  case (1 rowsPerBlock rowsOfBlocks blockRow)
  from "1.prems" have lt: "blockRow < rowsOfBlocks" by simp
  with "1.prems"(1) have br: "block_rows rowsPerBlock rowsOfBlocks blockRow =
      blockRow # block_rows rowsPerBlock rowsOfBlocks (blockRow + rowsPerBlock)"
    by (subst block_rows.simps) simp
  show ?case
  proof (cases "absRow < blockRow + rowsPerBlock")
    case True
    with "1.prems"(2) show ?thesis by (simp add: br)
  next
    case False
    then have "blockRow + rowsPerBlock \<le> absRow" by simp
    from "1.IH" [OF _ "1.prems"(1) this "1.prems"(3)] "1.prems"(1) lt show ?thesis
      by (auto simp: br)
  qed
qed

lemma visit_order_mem:
  assumes "0 < rowsPerBlock" "0 \<le> col" "col < blocksPerRow" "0 \<le> absRow" "absRow < rowsOfBlocks"
  shows "(col, absRow) \<in> set (visit_order rowsPerBlock rowsOfBlocks blocksPerRow)"
proof -
  from block_rows_cover [OF assms(1,4,5)] obtain br where
    br: "br \<in> set (block_rows rowsPerBlock rowsOfBlocks 0)" "br \<le> absRow" "absRow < br + rowsPerBlock"
    by blast
  have "absRow - br \<in> set [0..min (rowsPerBlock - 1) (rowsOfBlocks - br - 1)]"
    using br(2,3) assms(5) by simp
  then have "(\<lambda>r. (col, br + r)) (absRow - br)
      \<in> (\<lambda>r. (col, br + r)) ` set [0..min (rowsPerBlock - 1) (rowsOfBlocks - br - 1)]"
    by (rule imageI)
  then have "(col, absRow) \<in> set (column_visits rowsPerBlock rowsOfBlocks br col 0)"
    by (simp add: column_visits_def)
  moreover have "col \<in> set [0..blocksPerRow - 1]" using assms(2,3) by simp
  ultimately have "(col, absRow) \<in> set (group_visits rowsPerBlock rowsOfBlocks blocksPerRow br 0)"
    unfolding group_visits_def by auto
  with br(1) show ?thesis unfolding visit_order_def by auto
qed

text \<open>
  What a successful call of the decoder writes: one character for each block, in the order
  of the visit (for a padding symbol of one byte).
\<close>

lemma pngToDNAGrayscale_output:
  assumes bs: "0 < BlockSize cfg" and rpb: "0 < RowsPerBlock cfg"
    and dims: "fst (Bounds_Max img) smod BlockSize cfg = 0" "snd (Bounds_Max img) smod BlockSize cfg = 0"
    and pc: "PaddingChar cfg = c # cs" and ascii: "byte_of c < 0x80"
    and ok: "pngToDNAGrayscale (Some img) writer cfg = Some (out, None)"
  shows "length out = length writer + length (decode_order img cfg)"
    and "take (length writer) out = writer"
    and "\<forall>k < length (decode_order img cfg). \<forall>b.
           decode_block img cfg (rune_of_byte (byte_of c))
               (fst (decode_order img cfg ! k)) (snd (decode_order img cfg ! k)) b
             = Inr (b @ [out ! (length writer + k)])"
proof -
  let ?step = "decode_block img cfg (rune_of_byte (byte_of c))"
  from ok obtain dna where st: "steps_from ?step (decode_order img cfg) [] = Inr dna"
    and out: "out = writer @ dna"
    unfolding pngToDNAGrayscale_steps [OF bs dims pc rpb] decode_order_def
    by (auto split: sum.splits)
  have "\<forall>(col, absRow) \<in> set (decode_order img cfg). (\<exists>e. \<forall>b. ?step col absRow b = Inl e)
              \<or> (\<exists>ch. \<forall>b. ?step col absRow b = Inr (b @ [ch]))"
    using decode_block_cases [OF ascii] by blast
  from steps_from_chars [OF this st]
  have len: "length dna = length (decode_order img cfg)"
    and nth: "\<forall>k < length (decode_order img cfg). \<forall>b.
        ?step (fst (decode_order img cfg ! k)) (snd (decode_order img cfg ! k)) b = Inr (b @ [dna ! k])"
    by simp_all
  from len out show "length out = length writer + length (decode_order img cfg)" by simp
  from out show "take (length writer) out = writer" by simp
  from nth out show "\<forall>k < length (decode_order img cfg). \<forall>b.
           ?step (fst (decode_order img cfg ! k)) (snd (decode_order img cfg ! k)) b
             = Inr (b @ [out ! (length writer + k)])"
    by (simp add: nth_append)
qed








section \<open>Transparent blocks\<close>

lemma decode_block_same_opaque:
  assumes "same_opaque_pixels img img'"
  shows "decode_block img' cfg paddingChar = decode_block img cfg paddingChar"
proof (intro ext)
  fix col absRow dnaBuilder
  let ?x = "col * BlockSize cfg" and ?y = "absRow * BlockSize cfg"
  from assms have a: "alpha_of (At_RGBA img' ?x ?y) = alpha_of (At_RGBA img ?x ?y)"
    and o: "\<not> alpha_of (At_RGBA img ?x ?y) < 0xFFFF div 2 \<Longrightarrow> At_RGBA img' ?x ?y = At_RGBA img ?x ?y"
    by (simp_all add: same_opaque_pixels_def)
  show "decode_block img' cfg paddingChar col absRow dnaBuilder
      = decode_block img cfg paddingChar col absRow dnaBuilder"
  proof (cases "alpha_of (At_RGBA img ?x ?y) < 0xFFFF div 2")
    case True
    with a show ?thesis by (simp add: decode_block_transparent)
  next
    case False
    from o [OF this] show ?thesis by (simp add: decode_block_def)
  qed
qed

text \<open>
  Claim C5, as stated, fails in two places. The decoder tests \<open>a < 0xFFFF / 2\<close> on the
  16-bit alpha that \<open>RGBA()\<close> returns, and the constant is the integer 32767: a pixel of
  alpha 32767, which is below half of the full opacity 65535, is classified (here as \<open>C\<close>)
  and not decoded as padding. And the symbol that the decoder emits is the code point of
  the first byte of the padding string: for the two-byte character \<open>U+00E9\<close> (bytes
  \<open>C3 A9\<close>) it emits \<open>U+00C3\<close> (bytes \<open>C3 83\<close>), which is not the configured symbol.
\<close>

theorem half_opacity_edge:
  "2 * uint (alpha_of (At_RGBA (pixel_image (32767, 32767, 32767, 32767)) 0 0)) < 0xFFFF \<and>
   PaddingChar (default_cfg \<lparr> BlockSize := 1 \<rparr>) = ''N'' \<and>
   pngToDNAGrayscale (Some (pixel_image (32767, 32767, 32767, 32767))) []
       (default_cfg \<lparr> BlockSize := 1 \<rparr>)
     = Some (''C'', None) \<and>
   alpha_of (At_RGBA (pixel_image (0, 0, 0, 0)) 0 0) = 0 \<and>
   pngToDNAGrayscale (Some (pixel_image (0, 0, 0, 0))) []
       (default_cfg \<lparr> BlockSize := 1, PaddingChar := [CHR 0xC3, CHR 0xA9] \<rparr>)
     = Some ([CHR 0xC3, CHR 0x83], None)"
proof (intro conjI)
  show "2 * uint (alpha_of (At_RGBA (pixel_image (32767, 32767, 32767, 32767)) 0 0)) < 0xFFFF"
    by (simp add: alpha_of_def pixel_image_def)
  show "PaddingChar (default_cfg \<lparr> BlockSize := 1 \<rparr>) = ''N''"
    by (simp add: default_cfg_def)
  show "pngToDNAGrayscale (Some (pixel_image (32767, 32767, 32767, 32767))) []
       (default_cfg \<lparr> BlockSize := 1 \<rparr>) = Some (''C'', None)"
    by code_simp
  show "alpha_of (At_RGBA (pixel_image (0, 0, 0, 0)) 0 0) = 0"
    by (simp add: alpha_of_def pixel_image_def)
  show "pngToDNAGrayscale (Some (pixel_image (0, 0, 0, 0))) []
       (default_cfg \<lparr> BlockSize := 1, PaddingChar := [CHR 0xC3, CHR 0xA9] \<rparr>)
     = Some ([CHR 0xC3, CHR 0x83], None)"
    by code_simp
qed

text \<open>
  Claim C5, amended. Take a pixel grid whose sides are multiples of the (positive) block
  size, a positive number of rows per block, and a padding string that starts with a
  single-byte (ASCII) character \<open>c\<close>. For every block of the grid whose sampled (top-left)
  pixel has a 16-bit alpha below 32767, the value of \<open>0xFFFF / 2\<close> in integer arithmetic:
  the step of the decoder at that block appends \<open>c\<close> and cannot fail, whatever the red, green
  and blue values are; the call returns; the block has a place \<open>k\<close> in the order of the
  visit, and when the call succeeds its output has one character for each block, the one at
  place \<open>k\<close> being \<open>c\<close>; the call never fails with an error of that block, so nothing is
  classified there;
  and an image that differs only in the colours of such pixels decodes alike, errors
  included.
\<close>

theorem transparent_block_is_padding:
  assumes "0 < BlockSize cfg" and "0 < RowsPerBlock cfg"
    and "BlockSize cfg dvd fst (Bounds_Max img)" and "BlockSize cfg dvd snd (Bounds_Max img)"
    and "PaddingChar cfg = c # cs" and "byte_of c < 0x80"
    and "0 \<le> col" and "col < fst (Bounds_Max img) sdiv BlockSize cfg"
    and "0 \<le> absRow" and "absRow < snd (Bounds_Max img) sdiv BlockSize cfg"
    and "alpha_of (At_RGBA img (col * BlockSize cfg) (absRow * BlockSize cfg)) < 32767"
  shows "decode_block img cfg (rune_of_byte (byte_of c)) col absRow dnaBuilder
           = Inr (dnaBuilder @ [c]) \<and>
     (\<exists>res. pngToDNAGrayscale (Some img) writer cfg = Some res) \<and>
     (\<exists>k < length (decode_order img cfg). decode_order img cfg ! k = (col, absRow) \<and>
        (\<forall>out. pngToDNAGrayscale (Some img) writer cfg = Some (out, None) \<longrightarrow>
           length out = length writer + length (decode_order img cfg) \<and>
           out ! (length writer + k) = c)) \<and>
     (\<forall>writer' e. pngToDNAGrayscale (Some img) writer cfg
        \<noteq> Some (writer', Some (DecodingPixel (col * BlockSize cfg) (absRow * BlockSize cfg) e))) \<and>
     (\<forall>img'. same_opaque_pixels img img' \<longrightarrow>
        pngToDNAGrayscale (Some img') writer cfg = pngToDNAGrayscale (Some img) writer cfg)"
proof (intro conjI allI impI)
  let ?step = "decode_block img cfg (rune_of_byte (byte_of c))"
  note bs = assms(1) and rpb = assms(2) and pc = assms(5) and ascii = assms(6)
  from bs have nz: "BlockSize cfg \<noteq> 0" by simp
  from assms(3,4) have dims: "fst (Bounds_Max img) smod BlockSize cfg = 0"
      "snd (Bounds_Max img) smod BlockSize cfg = 0"
    by (simp_all add: smod_eq_0_iff_dvd [OF nz])
  from assms(11) have "alpha_of (At_RGBA img (col * BlockSize cfg) (absRow * BlockSize cfg))
      < 0xFFFF div 2" by simp
  from decode_block_transparent [OF this]
  have step: "?step col absRow b = Inr (b @ [c])" for b
    by (simp add: encodeRune_ascii [OF ascii])
  show "?step col absRow dnaBuilder = Inr (dnaBuilder @ [c])" by (rule step)
  show "\<exists>res. pngToDNAGrayscale (Some img) writer cfg = Some res"
    by (rule decode_returns [OF rpb])
  have "(col, absRow) \<in> set (decode_order img cfg)"
    unfolding decode_order_def by (rule visit_order_mem [OF rpb assms(7-10)])
  then obtain k where k: "k < length (decode_order img cfg)" "decode_order img cfg ! k = (col, absRow)"
    by (auto simp: in_set_conv_nth)
  have "length out = length writer + length (decode_order img cfg) \<and> out ! (length writer + k) = c"
    if ok: "pngToDNAGrayscale (Some img) writer cfg = Some (out, None)" for out
  proof -
    note o = pngToDNAGrayscale_output [OF bs rpb dims pc ascii ok]
    from o(3) k have "?step col absRow [] = Inr ([] @ [out ! (length writer + k)])"
      by (metis fst_conv snd_conv)
    with step [of "[]"] have "out ! (length writer + k) = c" by simp
    with o(1) show ?thesis by simp
  qed
  with k show "\<exists>k < length (decode_order img cfg). decode_order img cfg ! k = (col, absRow) \<and>
        (\<forall>out. pngToDNAGrayscale (Some img) writer cfg = Some (out, None) \<longrightarrow>
           length out = length writer + length (decode_order img cfg) \<and>
           out ! (length writer + k) = c)"
    by blast
next
  fix writer' e
  note bs = assms(1) and rpb = assms(2) and pc = assms(5) and ascii = assms(6)
  let ?step = "decode_block img cfg (rune_of_byte (byte_of c))"
  from bs have nz: "BlockSize cfg \<noteq> 0" by simp
  from assms(3,4) have dims: "fst (Bounds_Max img) smod BlockSize cfg = 0"
      "snd (Bounds_Max img) smod BlockSize cfg = 0"
    by (simp_all add: smod_eq_0_iff_dvd [OF nz])
  from assms(11) have "alpha_of (At_RGBA img (col * BlockSize cfg) (absRow * BlockSize cfg))
      < 0xFFFF div 2" by simp
  from decode_block_transparent [OF this]
  have step: "?step col absRow b = Inr (b @ encodeRune (rune_of_byte (byte_of c)))" for b .
  show "pngToDNAGrayscale (Some img) writer cfg
        \<noteq> Some (writer', Some (DecodingPixel (col * BlockSize cfg) (absRow * BlockSize cfg) e))"
  proof
    assume "pngToDNAGrayscale (Some img) writer cfg
        = Some (writer', Some (DecodingPixel (col * BlockSize cfg) (absRow * BlockSize cfg) e))"
    then have "steps_from ?step (decode_order img cfg) []
        = Inl (DecodingPixel (col * BlockSize cfg) (absRow * BlockSize cfg) e)"
      unfolding pngToDNAGrayscale_steps [OF bs dims pc rpb] decode_order_def
      by (auto split: sum.splits)
    from steps_from_first_error [OF this] obtain col' absRow' b' where
      f: "?step col' absRow' b' = Inl (DecodingPixel (col * BlockSize cfg) (absRow * BlockSize cfg) e)"
      by blast
    from decode_block_error [OF this] bs have "col' = col" "absRow' = absRow" by simp_all
    with f step [of b'] show False by simp
  qed
next
  fix img'
  assume s: "same_opaque_pixels img img'"
  then have b: "Bounds_Max img' = Bounds_Max img" by (simp add: same_opaque_pixels_def)
  show "pngToDNAGrayscale (Some img') writer cfg = pngToDNAGrayscale (Some img) writer cfg"
    unfolding pngToDNAGrayscale_def option.case b decode_block_same_opaque [OF s]
    by (rule refl)
qed

theorem transparent_block_is_padding_witness:
  "0 < BlockSize (default_cfg \<lparr> BlockSize := 1 \<rparr>) \<and>
   0 < RowsPerBlock (default_cfg \<lparr> BlockSize := 1 \<rparr>) \<and>
   BlockSize (default_cfg \<lparr> BlockSize := 1 \<rparr>) dvd fst (Bounds_Max (pixel_image (8000, 4000, 100, 8224))) \<and>
   BlockSize (default_cfg \<lparr> BlockSize := 1 \<rparr>) dvd snd (Bounds_Max (pixel_image (8000, 4000, 100, 8224))) \<and>
   PaddingChar (default_cfg \<lparr> BlockSize := 1 \<rparr>) = CHR ''N'' # [] \<and>
   byte_of CHR ''N'' < 0x80 \<and>
   (0 :: int) < fst (Bounds_Max (pixel_image (8000, 4000, 100, 8224)))
                  sdiv BlockSize (default_cfg \<lparr> BlockSize := 1 \<rparr>) \<and>
   (0 :: int) < snd (Bounds_Max (pixel_image (8000, 4000, 100, 8224)))
                  sdiv BlockSize (default_cfg \<lparr> BlockSize := 1 \<rparr>) \<and>
   alpha_of (At_RGBA (pixel_image (8000, 4000, 100, 8224))
       (0 * BlockSize (default_cfg \<lparr> BlockSize := 1 \<rparr>))
       (0 * BlockSize (default_cfg \<lparr> BlockSize := 1 \<rparr>))) < 32767 \<and>
   decode_block (pixel_image (8000, 4000, 100, 8224)) (default_cfg \<lparr> BlockSize := 1 \<rparr>)
       (rune_of_byte (byte_of CHR ''N'')) 0 0 ''AT'' = Inr (''AT'' @ [CHR ''N'']) \<and>
   same_opaque_pixels (pixel_image (8000, 4000, 100, 8224)) (pixel_image (0, 0, 0, 8224)) \<and>
   pngToDNAGrayscale (Some (pixel_image (0, 0, 0, 8224))) ''AT'' (default_cfg \<lparr> BlockSize := 1 \<rparr>)
     = pngToDNAGrayscale (Some (pixel_image (8000, 4000, 100, 8224))) ''AT''
         (default_cfg \<lparr> BlockSize := 1 \<rparr>) \<and>
   pngToDNAGrayscale (Some (pixel_image (8000, 4000, 100, 8224))) ''AT''
       (default_cfg \<lparr> BlockSize := 1 \<rparr>)
     = Some (''ATN'', None)"
proof -
  let ?cfg = "default_cfg \<lparr> BlockSize := 1 \<rparr>"
  let ?img = "pixel_image (8000, 4000, 100, 8224)"
  have h1: "0 < BlockSize ?cfg" by simp
  have h2: "0 < RowsPerBlock ?cfg" by (simp add: default_cfg_def)
  have h3: "BlockSize ?cfg dvd fst (Bounds_Max ?img)" by simp
  have h4: "BlockSize ?cfg dvd snd (Bounds_Max ?img)" by simp
  have h5: "PaddingChar ?cfg = CHR ''N'' # []" by (simp add: default_cfg_def)
  have h6: "byte_of CHR ''N'' < 0x80" by (simp add: byte_of_def)
  have h7: "(0 :: int) \<le> 0" by simp
  have h8: "(0 :: int) < fst (Bounds_Max ?img) sdiv BlockSize ?cfg"
    by (simp add: pixel_image_def)
  have h9: "(0 :: int) < snd (Bounds_Max ?img) sdiv BlockSize ?cfg"
    by (simp add: pixel_image_def)
  have h10: "alpha_of (At_RGBA ?img (0 * BlockSize ?cfg) (0 * BlockSize ?cfg)) < 32767"
    by (simp add: alpha_of_def pixel_image_def)
  have h11: "same_opaque_pixels ?img (pixel_image (0, 0, 0, 8224))"
    by (simp add: same_opaque_pixels_def pixel_image_def alpha_of_def)
  note t = transparent_block_is_padding [OF h1 h2 h3 h4 h5 h6 h7 h8 h7 h9 h10,
      where dnaBuilder = "''AT''" and writer = "''AT''"]
  note c1 = t [THEN conjunct1]
  note c2 = t [THEN conjunct2, THEN conjunct2, THEN conjunct2, THEN conjunct2, rule_format, OF h11]
  have c3: "pngToDNAGrayscale (Some ?img) ''AT'' ?cfg = Some (''ATN'', None)"
    by code_simp
  show ?thesis
    by (intro conjI) (rule h1 h2 h3 h4 h5 h6 h8 h9 h10 c1 h11 c2 c3)+
qed

section \<open>Errors of the decoder: the first one, and nothing written\<close>

text \<open>
  Claim C8. When \<open>pngToDNAGrayscale\<close> returns an error, its writer is as it was before the
  call, and so is the writer of \<open>dnaToPNGGrayscale\<close> when that returns an error. An error
  of a pixel is the error of the first block, in the order of the visit, whose step fails:
  the steps of all the blocks before it succeed.
\<close>

theorem first_error_no_partial_output:
  "(pngToDNAGrayscale reader writer cfg = Some (writer', Some err) \<longrightarrow> writer' = writer) \<and>
   (dnaToPNGGrayscale dnaSequence images cfg = (images', Some err') \<longrightarrow> images' = images) \<and>
   (0 < RowsPerBlock cfg \<and>
    pngToDNAGrayscale (Some img) writer cfg = Some (writer', Some (DecodingPixel x y e)) \<longrightarrow>
      (\<exists>c cs ps1 col absRow ps2 dnaBuilder.
          PaddingChar cfg = c # cs \<and>
          visit_order (RowsPerBlock cfg) (snd (Bounds_Max img) sdiv BlockSize cfg)
            (fst (Bounds_Max img) sdiv BlockSize cfg) = ps1 @ (col, absRow) # ps2 \<and>
          steps_from (decode_block img cfg (rune_of_byte (byte_of c))) ps1 [] = Inr dnaBuilder \<and>
          decode_block img cfg (rune_of_byte (byte_of c)) col absRow dnaBuilder
            = Inl (DecodingPixel x y e)))"
proof (intro conjI impI)
  assume "pngToDNAGrayscale reader writer cfg = Some (writer', Some err)"
  then show "writer' = writer"
    by (auto simp: pngToDNAGrayscale_def Let_def
        split: if_splits option.splits list.splits sum.splits)
next
  assume "dnaToPNGGrayscale dnaSequence images cfg = (images', Some err')"
  then show "images' = images"
    by (auto simp: dnaToPNGGrayscale_def Let_def split: if_splits)
next
  assume a: "0 < RowsPerBlock cfg \<and>
    pngToDNAGrayscale (Some img) writer cfg = Some (writer', Some (DecodingPixel x y e))"
  then have r: "0 < RowsPerBlock cfg"
    and d: "pngToDNAGrayscale (Some img) writer cfg = Some (writer', Some (DecodingPixel x y e))"
    by simp_all
  from d have bs: "0 < BlockSize cfg"
    by (auto simp: pngToDNAGrayscale_def split: if_splits)
  from d bs have dims: "fst (Bounds_Max img) smod BlockSize cfg = 0"
      "snd (Bounds_Max img) smod BlockSize cfg = 0"
    by (auto simp: pngToDNAGrayscale_def Let_def split: if_splits)
  from d bs dims obtain c cs where pc: "PaddingChar cfg = c # cs"
    by (cases "PaddingChar cfg") (auto simp: pngToDNAGrayscale_def Let_def)
  let ?step = "decode_block img cfg (rune_of_byte (byte_of c))"
  let ?order = "visit_order (RowsPerBlock cfg) (snd (Bounds_Max img) sdiv BlockSize cfg)
            (fst (Bounds_Max img) sdiv BlockSize cfg)"
  from d have "steps_from ?step ?order [] = Inl (DecodingPixel x y e)"
    unfolding pngToDNAGrayscale_steps [OF bs dims pc r]
    by (auto split: sum.splits)
  from steps_from_first_error [OF this] pc
  show "\<exists>c cs ps1 col absRow ps2 dnaBuilder. PaddingChar cfg = c # cs \<and> ?order = ps1 @ (col, absRow) # ps2 \<and>
          steps_from (decode_block img cfg (rune_of_byte (byte_of c))) ps1 [] = Inr dnaBuilder \<and>
          decode_block img cfg (rune_of_byte (byte_of c)) col absRow dnaBuilder
            = Inl (DecodingPixel x y e)"
    by blast
qed

theorem first_error_no_partial_output_witness:
  "pngToDNAGrayscale (Some two_block_image) ''GG'' (default_cfg \<lparr> BlockSize := 1 \<rparr>)
     = Some (''GG'', Some (DecodingPixel 1 0 (UnclassifiablePixel 100 28))) \<and>
   dnaToPNGGrayscale ''AT'' [] (default_cfg \<lparr> BlocksPerRow := 0 \<rparr>)
     = ([], Some (InvalidConfiguration ''blocks per row must be positive'')) \<and>
   0 < RowsPerBlock (default_cfg \<lparr> BlockSize := 1 \<rparr>) \<and>
   (\<exists>c cs ps1 col absRow ps2 dnaBuilder.
      PaddingChar (default_cfg \<lparr> BlockSize := 1 \<rparr>) = c # cs \<and>
      visit_order (RowsPerBlock (default_cfg \<lparr> BlockSize := 1 \<rparr>))
        (snd (Bounds_Max two_block_image) sdiv BlockSize (default_cfg \<lparr> BlockSize := 1 \<rparr>))
        (fst (Bounds_Max two_block_image) sdiv BlockSize (default_cfg \<lparr> BlockSize := 1 \<rparr>))
        = ps1 @ (col, absRow) # ps2 \<and>
      steps_from (decode_block two_block_image (default_cfg \<lparr> BlockSize := 1 \<rparr>)
          (rune_of_byte (byte_of c))) ps1 [] = Inr dnaBuilder \<and>
      decode_block two_block_image (default_cfg \<lparr> BlockSize := 1 \<rparr>)
          (rune_of_byte (byte_of c)) col absRow dnaBuilder
        = Inl (DecodingPixel 1 0 (UnclassifiablePixel 100 28)))"
proof -
  let ?cfg = "default_cfg \<lparr> BlockSize := 1 \<rparr>"
  have d: "pngToDNAGrayscale (Some two_block_image) ''GG'' ?cfg
     = Some (''GG'', Some (DecodingPixel 1 0 (UnclassifiablePixel 100 28)))"
    by code_simp
  have e: "dnaToPNGGrayscale ''AT'' [] (default_cfg \<lparr> BlocksPerRow := 0 \<rparr>)
     = ([], Some (InvalidConfiguration ''blocks per row must be positive''))"
    by (simp add: dnaToPNGGrayscale_def default_cfg_def)
  have r: "0 < RowsPerBlock ?cfg" by (simp add: default_cfg_def)
  note t = first_error_no_partial_output [where cfg = ?cfg and img = two_block_image
      and writer = "''GG''" and writer' = "''GG''" and x = 1 and y = 0
      and e = "UnclassifiablePixel 100 28", THEN conjunct2, THEN conjunct2, rule_format,
      OF conjI, OF r d]
  show ?thesis
    by (intro conjI) (rule d e r t)+
qed

section \<open>A step of zero rows per block\<close>

text \<open>
  \<open>pngToDNAGrayscale\<close> uses \<open>cfg.RowsPerBlock\<close> as the step of its outer loop without
  checking it. With \<open>RowsPerBlock = 0\<close> the two inner loops do nothing and \<open>blockRow\<close> never
  advances: on an image with at least one row of blocks the call does not return.
\<close>

lemma rows_loop_no_rows:
  "rowsPerBlock \<le> 0 \<Longrightarrow> rows_loop step rowsPerBlock rowsOfBlocks blockRow col 0 b = Inr b"
  by (subst rows_loop.simps) simp

lemma cols_loop_no_rows:
  "rowsPerBlock \<le> 0 \<Longrightarrow>
     cols_loop step rowsPerBlock rowsOfBlocks blocksPerRow blockRow col b = Inr b"
proof (induction step rowsPerBlock rowsOfBlocks blocksPerRow blockRow col b rule: cols_loop.induct)
  case (1 step rowsPerBlock rowsOfBlocks blocksPerRow blockRow col b)
  then show ?case
    by (subst cols_loop.simps) (simp add: rows_loop_no_rows)
qed

lemma blockRows_loop_returns_step:
  assumes "blockRows_loop step rowsPerBlock rowsOfBlocks blocksPerRow blockRow b = Some y"
  shows "\<not> (rowsPerBlock = 0 \<and> blockRow < rowsOfBlocks)"
proof (rule blockRows_loop.raw_induct
    [where P = "\<lambda>step rowsPerBlock rowsOfBlocks blocksPerRow blockRow b y.
                  \<not> (rowsPerBlock = 0 \<and> blockRow < rowsOfBlocks)", OF _ assms])
  fix f :: "(int \<Rightarrow> int \<Rightarrow> string \<Rightarrow> png_error + string) \<Rightarrow> int \<Rightarrow> int \<Rightarrow> int \<Rightarrow> int
      \<Rightarrow> string \<Rightarrow> (png_error + string) option"
  fix step rowsPerBlock rowsOfBlocks blocksPerRow blockRow b y
  assume IH: "\<And>step rowsPerBlock rowsOfBlocks blocksPerRow blockRow b y.
      f step rowsPerBlock rowsOfBlocks blocksPerRow blockRow b = Some y \<Longrightarrow>
      \<not> (rowsPerBlock = 0 \<and> blockRow < rowsOfBlocks)"
    and body: "(if blockRow < rowsOfBlocks
      then case cols_loop step rowsPerBlock rowsOfBlocks blocksPerRow blockRow 0 b of
           Inl err \<Rightarrow> Some (Inl err)
           | Inr dnaBuilder' \<Rightarrow>
               f step rowsPerBlock rowsOfBlocks blocksPerRow (blockRow + rowsPerBlock) dnaBuilder'
      else Some (Inr b)) = Some y"
  show "\<not> (rowsPerBlock = 0 \<and> blockRow < rowsOfBlocks)"
  proof
    assume a: "rowsPerBlock = 0 \<and> blockRow < rowsOfBlocks"
    with body have "f step rowsPerBlock rowsOfBlocks blocksPerRow blockRow b = Some y"
      by (simp add: cols_loop_no_rows)
    from IH [OF this] a show False by simp
  qed
qed

lemma blockRows_loop_zero_step:
  assumes "blockRow < rowsOfBlocks"
  shows "blockRows_loop step 0 rowsOfBlocks blocksPerRow blockRow b = None"
proof (cases "blockRows_loop step 0 rowsOfBlocks blocksPerRow blockRow b")
  case None
  then show ?thesis .
next
  case (Some y)
  from blockRows_loop_returns_step [OF this] assms show ?thesis by simp
qed

lemma decode_zero_rows_per_block:
  assumes "RowsPerBlock cfg = 0" "0 < BlockSize cfg" "PaddingChar cfg = c # cs"
    and "fst (Bounds_Max img) smod BlockSize cfg = 0" "snd (Bounds_Max img) smod BlockSize cfg = 0"
    and "0 < snd (Bounds_Max img) sdiv BlockSize cfg"
  shows "pngToDNAGrayscale (Some img) writer cfg = None"
  unfolding pngToDNAGrayscale_loops [OF assms(2,4,5,3)] assms(1)
  by (simp add: blockRows_loop_zero_step [OF assms(6)])

section \<open>Explicit padding symbols and trailing positions\<close>

lemma origin_in_position_square:
  assumes "valid_layout cfg"
  shows "(position_col cfg p * BlockSize cfg, position_row cfg p * BlockSize cfg)
           \<in> position_square cfg p"
proof -
  let ?B = "BlocksPerRow cfg * RowsPerBlock cfg"
  from assms have pos: "0 < BlocksPerRow cfg" "0 < RowsPerBlock cfg" "0 < BlockSize cfg" "0 < ?B"
    by (simp_all add: valid_layout_def)
  have "0 \<le> int p mod ?B" using pos(4) by simp
  then have i: "int (nat (int p mod ?B)) = int p mod ?B" by simp
  show ?thesis
    unfolding position_square_def block_square_iff [OF assms] i position_col_def position_row_def
    using pos(3) by simp
qed


text \<open>
  Claim C7, as stated, fails for a symbol of more than one byte. With the padding string
  \<open>U+00C3\<close> (bytes \<open>C3 83\<close>, whose first byte is the code point itself) the sequence of
  \<open>A\<close>, the padding symbol and \<open>T\<close> passes \<open>validateDNA\<close> and fills a block group of 2 by 2
  blocks. The encoder places each symbol at the block of its byte offset (0, 1 and 3): the
  third block, which lies before the end of the sequence, stays transparent. And where the
  sizes leave the range of \<open>int\<close> nothing is painted at all: with \<open>2^32\<close> blocks per row
  and \<open>2^32\<close> rows per block, \<open>basesPerBlock\<close> wraps to 0 and the encoder panics.
\<close>

theorem multibyte_symbol_leaves_gap:
  "validateDNA [CHR ''A'', CHR 0xC3, CHR 0x83, CHR ''T''] (rune_of_byte (byte_of (CHR 0xC3))) \<and>
   range_string [CHR ''A'', CHR 0xC3, CHR 0x83, CHR ''T'']
     = [(0, rune_lit CHR ''A''), (1, rune_of_byte (byte_of (CHR 0xC3))), (3, rune_lit CHR ''T'')] \<and>
   int (length [CHR ''A'', CHR 0xC3, CHR 0x83, CHR ''T''])
     = BlocksPerRow cfg_1_2_2 * RowsPerBlock cfg_1_2_2 \<and>
   snd (dnaToPNGGrayscale [CHR ''A'', CHR 0xC3, CHR 0x83, CHR ''T''] []
          (cfg_1_2_2 \<lparr> PaddingChar := [CHR 0xC3, CHR 0x83] \<rparr>)) = None \<and>
   map (\<lambda>img. map (\<lambda>p. cA (Pix img p)) [(0, 0), (1, 0), (0, 1), (1, 1)])
     (fst (dnaToPNGGrayscale [CHR ''A'', CHR 0xC3, CHR 0x83, CHR ''T''] []
            (cfg_1_2_2 \<lparr> PaddingChar := [CHR 0xC3, CHR 0x83] \<rparr>)))
     = [[255, 255, 0, 255]] \<and>
   dnaToPNGGrayscale ''N'' [] (default_cfg \<lparr> BlocksPerRow := 2 ^ 32, RowsPerBlock := 2 ^ 32 \<rparr>)
     = ([], Some DivideByZero)"
proof (intro conjI)
  show "validateDNA [CHR ''A'', CHR 0xC3, CHR 0x83, CHR ''T''] (rune_of_byte (byte_of (CHR 0xC3)))"
    by code_simp
  show "range_string [CHR ''A'', CHR 0xC3, CHR 0x83, CHR ''T'']
     = [(0, rune_lit CHR ''A''), (1, rune_of_byte (byte_of (CHR 0xC3))), (3, rune_lit CHR ''T'')]"
    by code_simp
  show "int (length [CHR ''A'', CHR 0xC3, CHR 0x83, CHR ''T''])
     = BlocksPerRow cfg_1_2_2 * RowsPerBlock cfg_1_2_2"
    by (simp add: cfg_1_2_2_def)
  show "snd (dnaToPNGGrayscale [CHR ''A'', CHR 0xC3, CHR 0x83, CHR ''T''] []
          (cfg_1_2_2 \<lparr> PaddingChar := [CHR 0xC3, CHR 0x83] \<rparr>)) = None"
    by code_simp
  show "map (\<lambda>img. map (\<lambda>p. cA (Pix img p)) [(0, 0), (1, 0), (0, 1), (1, 1)])
     (fst (dnaToPNGGrayscale [CHR ''A'', CHR 0xC3, CHR 0x83, CHR ''T''] []
            (cfg_1_2_2 \<lparr> PaddingChar := [CHR 0xC3, CHR 0x83] \<rparr>)))
     = [[255, 255, 0, 255]]"
    by code_simp
  show "dnaToPNGGrayscale ''N'' [] (default_cfg \<lparr> BlocksPerRow := 2 ^ 32, RowsPerBlock := 2 ^ 32 \<rparr>)
     = ([], Some DivideByZero)"
    by (simp add: dnaToPNGGrayscale_def default_cfg_def wrap64_def)
qed

text \<open>
  Claim C7, amended. Under a valid layout, for a sequence of single-byte characters whose
  sizes are within \<open>machine_range\<close> and in which the padding symbol (not one of A, T, C, G)
  stands at position \<open>p\<close>: the encoder succeeds and every pixel of the block of \<open>p\<close> lies in
  the image and is fully opaque with intensity 0, the colour of any unmapped symbol (lemma
  \<open>gray_of_unmapped\<close>); every position of the sequence is painted opaque; only the
  positions after the end of the sequence, up to the end of the last block group, are left
  transparent.
\<close>

theorem explicit_padding_is_opaque:
  assumes "valid_layout cfg" and "machine_range dnaSequence cfg" and "ascii_string dnaSequence"
    and "p < length dnaSequence" and "PaddingChar cfg = c # cs" and "dnaSequence ! p = c"
    and "c \<notin> dna_bases"
  shows "dnaToPNGGrayscale dnaSequence images cfg = (images @ [encode_image dnaSequence cfg], None) \<and>
     (\<forall>(u, v) \<in> position_square cfg p.
         in_Rect (encode_image dnaSequence cfg) u v \<and>
         Pix (encode_image dnaSequence cfg) (u, v) = \<lparr> cR = 0, cG = 0, cB = 0, cA = 255 \<rparr>) \<and>
     (\<forall>q. q < length dnaSequence \<longrightarrow>
         (\<forall>(u, v) \<in> position_square cfg q. cA (Pix (encode_image dnaSequence cfg) (u, v)) = 255)) \<and>
     (\<forall>q. length dnaSequence \<le> q \<and>
           int q < num_blocks dnaSequence cfg * (BlocksPerRow cfg * RowsPerBlock cfg) \<longrightarrow>
         (\<forall>(u, v) \<in> position_square cfg q. Pix (encode_image dnaSequence cfg) (u, v) = Transparent))"
proof (intro conjI allI impI ballI)
  note v = assms(1) and p = assms(4)
  from p have ne: "dnaSequence \<noteq> []" by auto
  show "dnaToPNGGrayscale dnaSequence images cfg = (images @ [encode_image dnaSequence cfg], None)"
    by (rule dnaToPNGGrayscale_valid [OF v assms(2) ne])
  from assms(3) have ascii: "\<forall>c \<in> set dnaSequence. byte_of c < 0x80"
    by (simp add: ascii_string_def)
  {
    fix uv assume "uv \<in> position_square cfg p"
    then obtain u v where uv: "uv = (u, v)" "(u, v) \<in> position_square cfg p" by (cases uv) simp
    from p ascii have "byte_of (dnaSequence ! p) < 0x80" by simp
    with assms(6,7) have "gray_of (rune_of_byte (byte_of (dnaSequence ! p)))
        = \<lparr> cR = 0, cG = 0, cB = 0, cA = 255 \<rparr>"
      by (intro gray_of_unmapped) simp_all
    with encode_image_position [OF v ascii p uv(2)] uv(1)
    show "case uv of (u, v) \<Rightarrow> in_Rect (encode_image dnaSequence cfg) u v \<and>
         Pix (encode_image dnaSequence cfg) (u, v) = \<lparr> cR = 0, cG = 0, cB = 0, cA = 255 \<rparr>"
      by simp
  }
  {
    fix q uv assume q: "q < length dnaSequence" and "uv \<in> position_square cfg q"
    then obtain u v where uv: "uv = (u, v)" "(u, v) \<in> position_square cfg q" by (cases uv) simp
    from encode_image_position [OF v ascii q uv(2)] uv(1)
    show "case uv of (u, v) \<Rightarrow> cA (Pix (encode_image dnaSequence cfg) (u, v)) = 255"
      by (simp add: gray_of_def)
  }
  {
    fix q uv
    assume q: "length dnaSequence \<le> q \<and>
           int q < num_blocks dnaSequence cfg * (BlocksPerRow cfg * RowsPerBlock cfg)"
      and "uv \<in> position_square cfg q"
    then obtain u v where uv: "uv = (u, v)" "(u, v) \<in> position_square cfg q" by (cases uv) simp
    from encode_image_trailing [OF v q [THEN conjunct1] q [THEN conjunct2] uv(2)] uv(1)
    show "case uv of (u, v) \<Rightarrow> Pix (encode_image dnaSequence cfg) (u, v) = Transparent"
      by simp
  }
qed

theorem explicit_padding_is_opaque_witness:
  "valid_layout cfg_2_2_1 \<and> machine_range ''ANT'' cfg_2_2_1 \<and> ascii_string ''ANT'' \<and>
   1 < length ''ANT'' \<and>
   PaddingChar cfg_2_2_1 = CHR ''N'' # [] \<and> ''ANT'' ! 1 = CHR ''N'' \<and> CHR ''N'' \<notin> dna_bases \<and>
   dnaToPNGGrayscale ''ANT'' [] cfg_2_2_1 = ([] @ [encode_image ''ANT'' cfg_2_2_1], None) \<and>
   (3, 1) \<in> position_square cfg_2_2_1 1 \<and>
   in_Rect (encode_image ''ANT'' cfg_2_2_1) 3 1 \<and>
   Pix (encode_image ''ANT'' cfg_2_2_1) (3, 1) = \<lparr> cR = 0, cG = 0, cB = 0, cA = 255 \<rparr> \<and>
   (1, 3) \<in> position_square cfg_2_2_1 2 \<and>
   cA (Pix (encode_image ''ANT'' cfg_2_2_1) (1, 3)) = 255 \<and>
   int 3 < num_blocks ''ANT'' cfg_2_2_1 * (BlocksPerRow cfg_2_2_1 * RowsPerBlock cfg_2_2_1) \<and>
   (2, 2) \<in> position_square cfg_2_2_1 3 \<and>
   Pix (encode_image ''ANT'' cfg_2_2_1) (2, 2) = Transparent"
proof -
  have h1: "valid_layout cfg_2_2_1" by (simp add: valid_layout_def cfg_2_2_1_def)
  have hm: "machine_range ''ANT'' cfg_2_2_1"
    by (simp add: machine_range_def num_blocks_def cfg_2_2_1_def)
  have h2: "ascii_string ''ANT''" by (simp add: ascii_string_def byte_of_def)
  have h3: "1 < length ''ANT''" by simp
  have h4: "PaddingChar cfg_2_2_1 = CHR ''N'' # []" by (simp add: cfg_2_2_1_def default_cfg_def)
  have h5: "''ANT'' ! 1 = CHR ''N''" by simp
  have h6: "CHR ''N'' \<notin> dna_bases" by (simp add: dna_bases_def)
  have s1: "(3, 1) \<in> position_square cfg_2_2_1 1"
    by (simp add: position_square_def block_square_def cfg_2_2_1_def smod_int_alt_def
        signed_divide_int_def)
  have s2: "(1, 3) \<in> position_square cfg_2_2_1 2"
    by (simp add: position_square_def block_square_def cfg_2_2_1_def smod_int_alt_def
        signed_divide_int_def)
  have s3: "(2, 2) \<in> position_square cfg_2_2_1 3"
    by (simp add: position_square_def block_square_def cfg_2_2_1_def smod_int_alt_def
        signed_divide_int_def)
  have n: "int 3 < num_blocks ''ANT'' cfg_2_2_1 * (BlocksPerRow cfg_2_2_1 * RowsPerBlock cfg_2_2_1)"
    by (simp add: num_blocks_def cfg_2_2_1_def)
  note t = explicit_padding_is_opaque [OF h1 hm h2 h3 h4 h5 h6, of "[]"]
  note a = t [THEN conjunct1]
  note b = t [THEN conjunct2, THEN conjunct1, THEN bspec, OF s1, simplified]
  have c: "cA (Pix (encode_image ''ANT'' cfg_2_2_1) (1, 3)) = 255"
    using t [THEN conjunct2, THEN conjunct2, THEN conjunct1, rule_format, OF _ s2]
    by simp
  have d: "Pix (encode_image ''ANT'' cfg_2_2_1) (2, 2) = Transparent"
    using t [THEN conjunct2, THEN conjunct2, THEN conjunct2, rule_format, OF _ s3] n
    by simp
  show ?thesis
    by (intro conjI)
       (rule h1 hm h2 h3 h4 h5 h6 a s1 s2 s3 n c d b [THEN conjunct1] b [THEN conjunct2])+
qed










lemma decode_block_trailing:
  assumes v: "valid_layout cfg"
    and p: "length dnaSequence \<le> p"
      "int p < num_blocks dnaSequence cfg * (BlocksPerRow cfg * RowsPerBlock cfg)"
  shows "decode_block (png_image (encode_image dnaSequence cfg)) cfg paddingChar
           (position_col cfg p) (position_row cfg p) dnaBuilder
         = Inr (dnaBuilder @ encodeRune paddingChar)"
proof -
  let ?x = "position_col cfg p * BlockSize cfg" and ?y = "position_row cfg p * BlockSize cfg"
  from encode_image_trailing [OF v p origin_in_position_square [OF v]]
  have "At_RGBA (png_image (encode_image dnaSequence cfg)) ?x ?y = (0, 0, 0, 0)"
    by (simp add: png_image_def RGBA_of_def Transparent_def)
  then have "alpha_of (At_RGBA (png_image (encode_image dnaSequence cfg)) ?x ?y) < 0xFFFF div 2"
    by (simp add: alpha_of_def)
  then show ?thesis by (rule decode_block_transparent)
qed


lemma decode_order_flag:
  "decode_order img (cfg \<lparr> TransparentPad := b \<rparr>) = decode_order img cfg"
  by (simp add: decode_order_def)






section \<open>The round trip with one row per block group\<close>

text \<open>
  With \<open>RowsPerBlock = 1\<close> (the default) the decoder visits the blocks row by row, which is
  the order in which the encoder wrote them: a non-empty sequence over A, T, C, G, with sizes
  within \<open>machine_range\<close>, comes back followed by one padding symbol for each block left over
  in the last row. The two orders
  differ only when both \<open>BlocksPerRow\<close> and \<open>RowsPerBlock\<close> exceed 1.
\<close>

lemma steps_from_emit:
  assumes "\<forall>(col, absRow) \<in> set ps. \<forall>b. step col absRow b = Inr (b @ f (col, absRow))"
  shows "steps_from step ps b = Inr (b @ concat (map f ps))"
  using assms by (induction ps arbitrary: b) auto

lemma block_rows_one: "block_rows 1 rowsOfBlocks blockRow = [blockRow..rowsOfBlocks - 1]"
proof (induction "1 :: int" rowsOfBlocks blockRow rule: block_rows.induct)
  case (1 rowsOfBlocks blockRow)
  show ?case
  proof (cases "blockRow < rowsOfBlocks")
    case True
    then have "[blockRow..rowsOfBlocks - 1] = blockRow # [blockRow + 1..rowsOfBlocks - 1]"
      by (intro upto_rec1) simp
    with True "1.hyps" show ?thesis
      by (subst block_rows.simps) simp
  next
    case False
    then have "[blockRow..rowsOfBlocks - 1] = []" by simp
    with False show ?thesis by (subst block_rows.simps) simp
  qed
qed

lemma group_visits_one:
  assumes "absRow < rowsOfBlocks"
  shows "group_visits 1 rowsOfBlocks blocksPerRow absRow 0 = map (\<lambda>c. (c, absRow)) [0..blocksPerRow - 1]"
proof -
  from assms have "min 0 (rowsOfBlocks - absRow - 1) = 0" by simp
  then have "column_visits 1 rowsOfBlocks absRow c 0 = [(c, absRow)]" for c
    by (simp add: column_visits_def)
  then show ?thesis
    by (simp add: group_visits_def concat_map_singleton)
qed

lemma visit_order_one:
  "visit_order 1 rowsOfBlocks blocksPerRow =
     concat (map (\<lambda>r. map (\<lambda>c. (c, r)) [0..blocksPerRow - 1]) [0..rowsOfBlocks - 1])"
proof -
  have "map (\<lambda>r. group_visits 1 rowsOfBlocks blocksPerRow r 0) [0..rowsOfBlocks - 1]
      = map (\<lambda>r. map (\<lambda>c. (c, r)) [0..blocksPerRow - 1]) [0..rowsOfBlocks - 1]"
    by (rule map_cong [OF refl]) (simp add: group_visits_one)
  then show ?thesis by (simp only: visit_order_def block_rows_one)
qed


lemma upto_shift: "[a..a + m] = map (\<lambda>c. a + c) [0..m]"
  by (rule nth_equalityI) simp_all

lemma row_major:
  assumes "0 < C"
  shows "concat (map (\<lambda>r. map (\<lambda>c. g r c) [0..C - 1]) [0..int n - 1])
           = map (\<lambda>q. g (q div C) (q mod C)) [0..int n * C - 1]"
proof (induction n)
  case 0
  then show ?case by simp
next
  case (Suc n)
  have rows: "[0..int (Suc n) - 1] = [0..int n - 1] @ [int n]"
    using upto_rec2 [of 0 "int n"] by simp
  have "0 \<le> int n * C" using assms by simp
  moreover have "int n * C \<le> int (Suc n) * C - 1" using assms by (simp add: algebra_simps)
  ultimately have "[0..int (Suc n) * C - 1] = [0..int n * C - 1] @ [int n * C..int (Suc n) * C - 1]"
    by (rule upto_split1)
  moreover have "[int n * C..int (Suc n) * C - 1] = map (\<lambda>c. int n * C + c) [0..C - 1]"
    using upto_shift [of "int n * C" "C - 1"] by (simp add: algebra_simps)
  ultimately have cols: "[0..int (Suc n) * C - 1]
      = [0..int n * C - 1] @ map (\<lambda>c. int n * C + c) [0..C - 1]" by simp
  have last: "map (\<lambda>c. g ((int n * C + c) div C) ((int n * C + c) mod C)) [0..C - 1]
      = map (\<lambda>c. g (int n) c) [0..C - 1]"
    using assms by (intro map_cong [OF refl]) (simp add: div_pos_pos_trivial)
  show ?case
    unfolding rows cols by (simp add: Suc.IH comp_def last)
qed


lemma map_nat_upto: "map nat [0..int m - 1] = [0..<m]"
  by (rule nth_equalityI) simp_all

lemma concat_symbols:
  assumes "length s \<le> m"
  shows "concat (map (\<lambda>p. if p < length s then [s ! p] else pad) [0..<m])
           = s @ concat (replicate (m - length s) pad)"
proof -
  have split: "[0..<m] = [0..<length s] @ [length s..<m]"
    using assms by (metis le_add_diff_inverse upt_add_eq_append zero_le)
  have a: "concat (map (\<lambda>p. if p < length s then [s ! p] else pad) [0..<length s]) = s"
  proof -
    have "map (\<lambda>p. if p < length s then [s ! p] else pad) [0..<length s]
        = map (\<lambda>p. [s ! p]) [0..<length s]"
      by (rule map_cong [OF refl]) simp
    then have "concat (map (\<lambda>p. if p < length s then [s ! p] else pad) [0..<length s])
        = concat (map (\<lambda>p. [s ! p]) [0..<length s])"
      by (simp only:)
    also have "\<dots> = map (\<lambda>p. s ! p) [0..<length s]"
      by (rule concat_map_singleton)
    finally show ?thesis by (simp add: map_nth)
  qed
  have "map (\<lambda>p. if p < length s then [s ! p] else pad) [length s..<m]
      = map (\<lambda>p. pad) [length s..<m]"
    by (rule map_cong [OF refl]) simp
  then have b: "map (\<lambda>p. if p < length s then [s ! p] else pad) [length s..<m]
      = replicate (m - length s) pad"
    by (simp add: map_replicate_const)
  show ?thesis
    by (subst split) (simp only: map_append concat_append a b)
qed


lemma decode_block_position:
  assumes v: "valid_layout cfg" and r1: "RowsPerBlock cfg = 1"
    and bases: "set dnaSequence \<subseteq> dna_bases"
    and q: "0 \<le> q" "q < num_blocks dnaSequence cfg * BlocksPerRow cfg"
  shows "decode_block (png_image (encode_image dnaSequence cfg)) cfg paddingChar
           (q mod BlocksPerRow cfg) (q div BlocksPerRow cfg) b
         = Inr (b @ (if nat q < length dnaSequence then [dnaSequence ! nat q]
                     else encodeRune paddingChar))"
proof -
  let ?C = "BlocksPerRow cfg" and ?img = "encode_image dnaSequence cfg"
  from v have pos: "0 < ?C" by (simp add: valid_layout_def)
  have iq: "int (nat q) = q" using q(1) by simp
  have "q mod ?C div ?C = 0" using pos by (simp add: div_pos_pos_trivial)
  then have col: "position_col cfg (nat q) = q mod ?C" and row: "position_row cfg (nat q) = q div ?C"
    unfolding position_col_def position_row_def r1 iq by simp_all
  note org = origin_in_position_square [OF v, of "nat q", unfolded col row]
  show ?thesis
  proof (cases "nat q < length dnaSequence")
    case True
    from bases have ascii: "\<forall>c \<in> set dnaSequence. byte_of c < 0x80"
      by (auto intro: bases_ascii)
    from encode_image_position [OF v ascii True org]
    have "At_RGBA (png_image ?img) (q mod ?C * BlockSize cfg) (q div ?C * BlockSize cfg)
        = RGBA_of (gray_of (rune_of_byte (byte_of (dnaSequence ! nat q))))"
      by (simp add: png_image_def)
    moreover from True bases have "dnaSequence ! nat q \<in> dna_bases" by auto
    ultimately show ?thesis
      using True by (simp add: decode_block_painted)
  next
    case False
    then have le: "length dnaSequence \<le> nat q" by simp
    have lt: "int (nat q) < num_blocks dnaSequence cfg * (BlocksPerRow cfg * RowsPerBlock cfg)"
      unfolding iq r1 using q(2) by simp
    from decode_block_trailing [OF v le lt, of paddingChar b] False show ?thesis
      by (simp add: col row)
  qed
qed

lemma roundtrip_one_row_per_block:
  assumes v: "valid_layout cfg" and m: "machine_range dnaSequence cfg" and r1: "RowsPerBlock cfg = 1"
    and bases: "set dnaSequence \<subseteq> dna_bases" and ne: "dnaSequence \<noteq> []"
    and pc: "PaddingChar cfg = c # cs"
  shows "decode_encode dnaSequence cfg =
     Some (dnaSequence @ concat (replicate
              (nat (num_blocks dnaSequence cfg * BlocksPerRow cfg) - length dnaSequence)
              (encodeRune (rune_of_byte (byte_of c)))), None)"
proof -
  let ?C = "BlocksPerRow cfg" and ?S = "BlockSize cfg" and ?N = "num_blocks dnaSequence cfg"
  let ?img = "png_image (encode_image dnaSequence cfg)"
  let ?pad = "rune_of_byte (byte_of c)"
  let ?sym = "\<lambda>p. if p < length dnaSequence then [dnaSequence ! p] else encodeRune ?pad"
  from v have pos: "0 < ?C" "0 < ?S" by (simp_all add: valid_layout_def)
  have N0: "0 \<le> ?N" using num_blocks_pos [OF v ne] by simp
  have bm: "Bounds_Max ?img = (?C * ?S, ?N * ?S)"
    by (simp add: png_image_def Rect_Max_encode_image r1)
  have dims: "fst (Bounds_Max ?img) smod ?S = 0" "snd (Bounds_Max ?img) smod ?S = 0"
    using pos by (simp_all add: bm smod_eq_0_iff_dvd)
  have cols: "fst (Bounds_Max ?img) sdiv ?S = ?C" and rows: "snd (Bounds_Max ?img) sdiv ?S = ?N"
    using pos N0 by (simp_all add: bm sdiv_nonneg)
  have r: "0 < RowsPerBlock cfg" by (simp add: r1)
  have order: "visit_order 1 ?N ?C = map (\<lambda>q. (q mod ?C, q div ?C)) [0..?N * ?C - 1]"
    using row_major [OF pos(1), of "\<lambda>r c. (c, r)" "nat ?N"] N0
    by (simp add: visit_order_one)
  let ?f = "\<lambda>(col, absRow). ?sym (nat (absRow * ?C + col))"
  have emit: "\<forall>(col, absRow) \<in> set (visit_order 1 ?N ?C). \<forall>b.
      decode_block ?img cfg ?pad col absRow b = Inr (b @ ?f (col, absRow))"
    unfolding order
    using decode_block_position [OF v r1 bases] by (auto simp: mult.commute)
  have "map ?f (visit_order 1 ?N ?C)
      = map ?sym (map nat [0..int (nat (?N * ?C)) - 1])"
    unfolding order using pos N0 by (simp add: comp_def)
  also have "\<dots> = map ?sym [0..<nat (?N * ?C)]" by (simp only: map_nat_upto)
  finally have syms: "concat (map ?f (visit_order 1 ?N ?C))
      = dnaSequence @ concat (replicate (nat (?N * ?C) - length dnaSequence) (encodeRune ?pad))"
    using concat_symbols [of dnaSequence "nat (?N * ?C)" "encodeRune ?pad"]
      num_blocks_bounds(1) [OF v, of dnaSequence] by (simp add: r1)
  have "steps_from (decode_block ?img cfg ?pad) (visit_order 1 ?N ?C) []
      = Inr (dnaSequence @ concat (replicate (nat (?N * ?C) - length dnaSequence) (encodeRune ?pad)))"
    using steps_from_emit [where f = ?f, OF emit, of "[]"] syms by simp
  then have "pngToDNAGrayscale (Some ?img) [] cfg
      = Some (dnaSequence @ concat (replicate (nat (?N * ?C) - length dnaSequence)
                (encodeRune ?pad)), None)"
    unfolding pngToDNAGrayscale_steps [OF pos(2) dims pc r] cols rows r1 by simp
  then show ?thesis
    by (simp add: decode_encode_def dnaToPNGGrayscale_valid [OF v m ne])
qed

end
